theory Spec2Isabelle
  imports Main "HOL-Library.Word"
begin

section \<open>The soccer-game player process (semSharedMemPlayer.c)\<close>

text \<open>
  The player is one process among several that share a memory region and a set of
  System V semaphores.  Each source statement that touches the shared region or a
  semaphore is one atomic step of the process; the program counter of a process is the
  source line of the statement it executes next.  Other processes may run between any
  two steps.
\<close>

subsection \<open>Shared data\<close>

text \<open>The semaphores of the set, by the names of their identifiers in the shared region.\<close>

datatype sem = mutex | playersWaitTeam | goaliesWaitTeam | playerRegistered
  | refereeWaitTeams | playersWaitReferee | playing | playersWaitEnd

text \<open>The player states used by the source (their numeric values are in probConst.h).\<close>

datatype pstat = ARRIVING | WAITING_TEAMS | FORMING_TEAM | WAITING_START_1
  | WAITING_START_2 | PLAYING_1 | PLAYING_2 | LATE

text \<open>
  \<^verbatim>\<open>sh->fSt\<close> with the fields the player reads and writes.  \<^verbatim>\<open>playerStat\<close> is a C array
  indexed by the player id; the model keeps one entry per integer (an index outside the
  array is undefined behaviour in C and is not given a meaning of its own here).  The
  counters are C \<^verbatim>\<open>int\<close>s; they count processes, so they are modelled as unbounded
  integers.
\<close>

record STAT =
  playerStat :: "int \<Rightarrow> pstat"

record FULL_STAT =
  st :: STAT
  playersArrived :: int
  playersFree :: int
  goaliesFree :: int
  teamId :: int

definition set_playerStat :: "FULL_STAT \<Rightarrow> int \<Rightarrow> pstat \<Rightarrow> FULL_STAT" where
  "set_playerStat sh i v = sh\<lparr>st := (st sh)\<lparr>playerStat := (playerStat (st sh))(i := v)\<rparr>\<rparr>"

definition EXIT_SUCCESS :: int where
  "EXIT_SUCCESS = 0"

definition EXIT_FAILURE :: int where
  "EXIT_FAILURE = 1"

subsection \<open>The process state and the observable events\<close>

text \<open>Program points: \<open>Lk\<close> is the statement at line k of semSharedMemPlayer.c.\<close>

datatype (plugins only: code) ppc =
    L142 | L147 | L148 | L150 | L155
  | L177 | L182 | L183 | L184 | L186 | L187 | L188 | L189 | L190
  | L193 | L197 | L203 | L207 | L212
  | L217 | L218 | L219 | L223
  | L231 | L237 | L242 | L243 | L249 | L252
  | L266 | L271 | L272 | L274 | L279
  | L297 | L302 | L303 | L305 | L310 | L315
  | L125

text \<open>
  The locals of \<^verbatim>\<open>main\<close> and of the four operations.  \<open>exited\<close> holds the exit status
  once the process has terminated; the program counter then stays where it stopped.
\<close>

record player =
  pc :: ppc
  exited :: "int option"
  id_p :: int
  ret :: int
  player_type :: int
  count_p :: int
  team :: int

datatype event =
    SemDown sem
  | SemUp sem
  | SemFail sem
  | SetStat int pstat
  | SaveState
  | IncArrived int
  | TestFree int int
  | DecPlayersFree
  | DecGoaliesFree
  | IncPlayersFree
  | ClaimTeam int
  | ReadTeam int
  | Perror
  | Usleep
  | Return int
  | Exit int

type_synonym sems = "sem \<Rightarrow> nat"

type_synonym outcome = "(event \<times> player \<times> FULL_STAT \<times> sems) option"

subsection \<open>Semaphore operations\<close>

text \<open>
  \<^verbatim>\<open>semDown\<close> and \<^verbatim>\<open>semUp\<close> of semaphore.h, as every call site uses them: on the
  error return \<open>-1\<close> the caller prints a diagnostic and calls \<^verbatim>\<open>exit (EXIT_FAILURE)\<close>;
  otherwise a down waits until the semaphore is positive and decrements it (no step is
  possible while it is zero), and an up increments it.  \<open>fl\<close> says whether the system
  call fails, \<open>q\<close> is the process after the call has succeeded, \<open>p\<close> the process
  that makes the call.
\<close>

definition semDown :: "bool \<Rightarrow> sem \<Rightarrow> player \<Rightarrow> player \<Rightarrow> FULL_STAT \<Rightarrow> sems \<Rightarrow> outcome" where
  "semDown fl s q p sh sm =
     (if fl then Some (SemFail s, p\<lparr>exited := Some EXIT_FAILURE\<rparr>, sh, sm)
      else if sm s = 0 then None
      else Some (SemDown s, q, sh, sm(s := sm s - 1)))"

definition semUp :: "bool \<Rightarrow> sem \<Rightarrow> player \<Rightarrow> player \<Rightarrow> FULL_STAT \<Rightarrow> sems \<Rightarrow> outcome" where
  "semUp fl s q p sh sm =
     (if fl then Some (SemFail s, p\<lparr>exited := Some EXIT_FAILURE\<rparr>, sh, sm)
      else Some (SemUp s, q, sh, sm(s := sm s + 1)))"

subsection \<open>The player's steps\<close>

text \<open>The \<^verbatim>\<open>switch (player_type)\<close> of line 227: the statement executed next.\<close>

definition switch_target :: "int \<Rightarrow> ppc" where
  "switch_target t =
     (if t = 0 then L252 else if t = 1 then L231 else if t = 2 then L237 else L249)"

text \<open>
  One step of a player.  \<open>NTP\<close> is the constant \<^verbatim>\<open>NUMTEAMPLAYERS\<close> of probConst.h.
  Purely local statements are executed together with the shared access or semaphore
  call before them: \<^verbatim>\<open>count++\<close> and the loop test of line 202 with the down of line
  197, the \<^verbatim>\<open>switch\<close> of line 227 with the up of line 223, the initialisations of
  lines 175, 181 and 191 with the statement that follows or precedes them, and the test
  of the returned team in \<^verbatim>\<open>main\<close> (line 119) with the \<^verbatim>\<open>return\<close> of line 252.
\<close>

definition player_step :: "int \<Rightarrow> bool \<Rightarrow> player \<Rightarrow> FULL_STAT \<Rightarrow> sems \<Rightarrow> outcome" where
  "player_step NTP fl p sh sm =
    (if exited p \<noteq> None then None else
     case pc p of
       L142 \<Rightarrow> semDown fl mutex (p\<lparr>pc := L147\<rparr>) p sh sm
     | L147 \<Rightarrow> Some (SetStat (id_p p) ARRIVING, p\<lparr>pc := L148\<rparr>,
                 set_playerStat sh (id_p p) ARRIVING, sm)
     | L148 \<Rightarrow> Some (SaveState, p\<lparr>pc := L150\<rparr>, sh, sm)
     | L150 \<Rightarrow> semUp fl mutex (p\<lparr>pc := L155\<rparr>) p sh sm
     | L155 \<Rightarrow> Some (Usleep, p\<lparr>pc := L177\<rparr>, sh, sm)
     | L177 \<Rightarrow> semDown fl mutex (p\<lparr>ret := 0, pc := L182\<rparr>) (p\<lparr>ret := 0\<rparr>) sh sm
     | L182 \<Rightarrow> Some (IncArrived (playersArrived sh + 1),
                 p\<lparr>player_type := 0,
                   pc := (if playersArrived sh + 1 > 8 then L183 else L186)\<rparr>,
                 sh\<lparr>playersArrived := playersArrived sh + 1\<rparr>, sm)
     | L183 \<Rightarrow> Some (SetStat (id_p p) LATE, p\<lparr>pc := L184\<rparr>,
                 set_playerStat sh (id_p p) LATE, sm)
     | L184 \<Rightarrow> Some (SaveState, p\<lparr>pc := L223\<rparr>, sh, sm)
     | L186 \<Rightarrow> Some (TestFree (playersFree sh) (goaliesFree sh),
                 p\<lparr>pc := (if playersFree sh \<ge> 3 \<and> goaliesFree sh \<noteq> 0 then L187 else L217)\<rparr>,
                 sh, sm)
     | L187 \<Rightarrow> Some (DecPlayersFree, p\<lparr>pc := L188\<rparr>,
                 sh\<lparr>playersFree := playersFree sh - 3\<rparr>, sm)
     | L188 \<Rightarrow> Some (DecGoaliesFree, p\<lparr>pc := L189\<rparr>,
                 sh\<lparr>goaliesFree := goaliesFree sh - 1\<rparr>, sm)
     | L189 \<Rightarrow> Some (SetStat (id_p p) FORMING_TEAM, p\<lparr>pc := L190\<rparr>,
                 set_playerStat sh (id_p p) FORMING_TEAM, sm)
     | L190 \<Rightarrow> Some (SaveState, p\<lparr>count_p := 0, pc := L193\<rparr>, sh, sm)
     | L193 \<Rightarrow> semUp fl playersWaitTeam (p\<lparr>pc := L197\<rparr>) p sh sm
     | L197 \<Rightarrow> semDown fl playerRegistered
                 (p\<lparr>count_p := count_p p + 1,
                    pc := (if count_p p + 1 \<noteq> NTP - 1 then L193 else L203)\<rparr>) p sh sm
     | L203 \<Rightarrow> semUp fl goaliesWaitTeam (p\<lparr>pc := L207\<rparr>) p sh sm
     | L207 \<Rightarrow> semDown fl playerRegistered (p\<lparr>pc := L212\<rparr>) p sh sm
     | L212 \<Rightarrow> Some (ClaimTeam (teamId sh),
                 p\<lparr>ret := teamId sh, player_type := 1, pc := L223\<rparr>,
                 sh\<lparr>teamId := teamId sh + 1\<rparr>, sm)
     | L217 \<Rightarrow> Some (IncPlayersFree, p\<lparr>pc := L218\<rparr>,
                 sh\<lparr>playersFree := playersFree sh + 1\<rparr>, sm)
     | L218 \<Rightarrow> Some (SetStat (id_p p) WAITING_TEAMS, p\<lparr>pc := L219\<rparr>,
                 set_playerStat sh (id_p p) WAITING_TEAMS, sm)
     | L219 \<Rightarrow> Some (SaveState, p\<lparr>player_type := 2, pc := L223\<rparr>, sh, sm)
     | L223 \<Rightarrow> semUp fl mutex (p\<lparr>pc := switch_target (player_type p)\<rparr>) p sh sm
     | L231 \<Rightarrow> semUp fl refereeWaitTeams (p\<lparr>pc := L252\<rparr>) p sh sm
     | L237 \<Rightarrow> semDown fl playersWaitTeam (p\<lparr>pc := L242\<rparr>) p sh sm
     | L242 \<Rightarrow> Some (ReadTeam (teamId sh), p\<lparr>ret := teamId sh, pc := L243\<rparr>, sh, sm)
     | L243 \<Rightarrow> semUp fl playerRegistered (p\<lparr>pc := L252\<rparr>) p sh sm
     | L249 \<Rightarrow> Some (Perror, p\<lparr>pc := L252\<rparr>, sh, sm)
     | L252 \<Rightarrow> Some (Return (ret p),
                 p\<lparr>team := ret p, pc := (if ret p \<noteq> 0 then L266 else L125)\<rparr>, sh, sm)
     | L266 \<Rightarrow> semDown fl mutex (p\<lparr>pc := L271\<rparr>) p sh sm
     | L271 \<Rightarrow> Some (SetStat (id_p p) (if team p = 1 then WAITING_START_1 else WAITING_START_2),
                 p\<lparr>pc := L272\<rparr>,
                 set_playerStat sh (id_p p)
                   (if team p = 1 then WAITING_START_1 else WAITING_START_2), sm)
     | L272 \<Rightarrow> Some (SaveState, p\<lparr>pc := L274\<rparr>, sh, sm)
     | L274 \<Rightarrow> semUp fl mutex (p\<lparr>pc := L279\<rparr>) p sh sm
     | L279 \<Rightarrow> semDown fl playersWaitReferee (p\<lparr>pc := L297\<rparr>) p sh sm
     | L297 \<Rightarrow> semDown fl mutex (p\<lparr>pc := L302\<rparr>) p sh sm
     | L302 \<Rightarrow> Some (SetStat (id_p p) (if team p = 1 then PLAYING_1 else PLAYING_2),
                 p\<lparr>pc := L303\<rparr>,
                 set_playerStat sh (id_p p) (if team p = 1 then PLAYING_1 else PLAYING_2), sm)
     | L303 \<Rightarrow> Some (SaveState, p\<lparr>pc := L305\<rparr>, sh, sm)
     | L305 \<Rightarrow> semUp fl playing (p\<lparr>pc := L310\<rparr>) p sh sm
     | L310 \<Rightarrow> semUp fl mutex (p\<lparr>pc := L315\<rparr>) p sh sm
     | L315 \<Rightarrow> semDown fl playersWaitEnd (p\<lparr>pc := L125\<rparr>) p sh sm
     | L125 \<Rightarrow> Some (Exit (if fl then EXIT_FAILURE else EXIT_SUCCESS),
                 p\<lparr>exited := Some (if fl then EXIT_FAILURE else EXIT_SUCCESS)\<rparr>, sh, sm))"

text \<open>
  The executions of one player seen on its own: between two of its steps the other
  processes may have changed the shared region and the semaphores in any way, so
  every step meets an arbitrary \<open>sh\<close> and \<open>sm\<close>.
\<close>

inductive pexec :: "int \<Rightarrow> player \<Rightarrow> event list \<Rightarrow> player \<Rightarrow> bool" for NTP :: int and p0 :: player where
  pexec_init: "pexec NTP p0 [] p0"
| pexec_step: "pexec NTP p0 tr p \<Longrightarrow> player_step NTP fl p sh sm = Some (ev, p', sh', sm')
     \<Longrightarrow> pexec NTP p0 (tr @ [ev]) p'"

text \<open>A player running alone for \<open>k\<close> steps, no call failing; it stops where it blocks.\<close>

fun solo :: "int \<Rightarrow> nat \<Rightarrow> event list \<times> player \<times> FULL_STAT \<times> sems \<Rightarrow> event list \<times> player \<times> FULL_STAT \<times> sems" where
  "solo NTP 0 c = c"
| "solo NTP (Suc k) (tr, p, sh, sm) =
     (case player_step NTP False p sh sm of
        None \<Rightarrow> (tr, p, sh, sm)
      | Some (ev, p', sh', sm') \<Rightarrow> solo NTP k (tr @ [ev], p', sh', sm'))"

subsection \<open>The processes together\<close>

text \<open>
  Modelled from the spec: the goalie and referee processes and the program that creates
  the shared region are not in semSharedMemPlayer.c.  They appear here as peers that
  follow the spec's contract (sections 3, 4.1 and 4.4): a peer changes the shared region
  only while it holds the mutex; a goalie that arrives increments \<open>goaliesFree\<close>, waits
  on \<open>goaliesWaitTeam\<close> and then signals \<open>playerRegistered\<close> once; the referee waits on
  \<open>refereeWaitTeams\<close> and \<open>playing\<close> and signals \<open>playersWaitReferee\<close> and
  \<open>playersWaitEnd\<close>.  \<open>peers_locked\<close> counts the peers inside their critical region,
  \<open>peers_pending\<close> the goalies that were called and have not registered yet.
\<close>

record system =
  players :: "nat \<Rightarrow> player"
  shm :: FULL_STAT
  sems :: sems
  peers_locked :: nat
  peers_pending :: nat

datatype choice =
    RunPlayer nat bool
  | PeerLock
  | PeerUnlock
  | PeerIncFree
  | PeerDown sem
  | PeerUp sem
  | PeerRegister

datatype gevent = PlayerEv nat event | PeerEv choice

definition gstep :: "int \<Rightarrow> choice \<Rightarrow> system \<Rightarrow> (gevent \<times> system) option" where
  "gstep NTP c s =
    (case c of
       RunPlayer i fl \<Rightarrow>
         (case player_step NTP fl (players s i) (shm s) (sems s) of
            None \<Rightarrow> None
          | Some (ev, p', sh', sm') \<Rightarrow>
              Some (PlayerEv i ev, s\<lparr>players := (players s)(i := p'), shm := sh', sems := sm'\<rparr>))
     | PeerLock \<Rightarrow>
         (if sems s mutex = 0 then None
          else Some (PeerEv c, s\<lparr>sems := (sems s)(mutex := sems s mutex - 1),
                                  peers_locked := peers_locked s + 1\<rparr>))
     | PeerUnlock \<Rightarrow>
         (if peers_locked s = 0 then None
          else Some (PeerEv c, s\<lparr>sems := (sems s)(mutex := sems s mutex + 1),
                                  peers_locked := peers_locked s - 1\<rparr>))
     | PeerIncFree \<Rightarrow>
         (if peers_locked s = 0 then None
          else Some (PeerEv c, s\<lparr>shm := (shm s)\<lparr>goaliesFree := goaliesFree (shm s) + 1\<rparr>\<rparr>))
     | PeerDown x \<Rightarrow>
         (if x \<notin> {goaliesWaitTeam, refereeWaitTeams, playing} \<or> sems s x = 0 then None
          else Some (PeerEv c, s\<lparr>sems := (sems s)(x := sems s x - 1),
                 peers_pending := peers_pending s + (if x = goaliesWaitTeam then 1 else 0)\<rparr>))
     | PeerUp x \<Rightarrow>
         (if x \<notin> {playersWaitReferee, playersWaitEnd} then None
          else Some (PeerEv c, s\<lparr>sems := (sems s)(x := sems s x + 1)\<rparr>))
     | PeerRegister \<Rightarrow>
         (if peers_pending s = 0 then None
          else Some (PeerEv c, s\<lparr>sems := (sems s)(playerRegistered := sems s playerRegistered + 1),
                                  peers_pending := peers_pending s - 1\<rparr>)))"

text \<open>
  Modelled from the spec: the state in which the processes start (the program that
  initialises the shared region is not in semSharedMemPlayer.c): the mutex is free, no
  rendezvous channel holds a signal, nobody has arrived and nobody is free.  The first
  team identifier and the status arrays are left open.  Every player is at the call of
  \<^verbatim>\<open>arrive\<close> (line 118 of \<^verbatim>\<open>main\<close>).
\<close>

definition initial :: "system \<Rightarrow> bool" where
  "initial s \<longleftrightarrow>
     (\<forall>i. pc (players s i) = L142 \<and> exited (players s i) = None) \<and>
     sems s = (\<lambda>x. 0)(mutex := 1) \<and>
     playersArrived (shm s) = 0 \<and> playersFree (shm s) = 0 \<and> goaliesFree (shm s) = 0 \<and>
     peers_locked s = 0 \<and> peers_pending s = 0"

inductive grun :: "int \<Rightarrow> system \<Rightarrow> gevent list \<Rightarrow> system \<Rightarrow> bool" for NTP :: int and s0 :: system where
  grun_init: "grun NTP s0 [] s0"
| grun_step: "grun NTP s0 tr s \<Longrightarrow> gstep NTP c s = Some (e, s') \<Longrightarrow> grun NTP s0 (tr @ [e]) s'"

definition reach :: "int \<Rightarrow> system \<Rightarrow> bool" where
  "reach NTP s \<longleftrightarrow> (\<exists>s0 tr. initial s0 \<and> grun NTP s0 tr s)"

text \<open>Running a schedule: the choices are taken in order; a choice that cannot step ends the run with \<open>None\<close>.\<close>

fun schedule :: "int \<Rightarrow> choice list \<Rightarrow> gevent list \<times> system \<Rightarrow> (gevent list \<times> system) option" where
  "schedule NTP [] c = Some c"
| "schedule NTP (x # xs) (tr, s) =
     (case gstep NTP x s of
        None \<Rightarrow> None
      | Some (e, s') \<Rightarrow> schedule NTP xs (tr @ [e], s'))"

subsection \<open>Startup of the process: the validation of the command line\<close>

text \<open>
  \<^verbatim>\<open>strtol (s, &tinp, 0)\<close> of the C library for a 64-bit \<^verbatim>\<open>long\<close>: white space, an
  optional sign, the prefix that selects base 16 or 8, the digits; the value is clamped
  to the range of \<^verbatim>\<open>long\<close>; without a digit the value is 0 and \<^verbatim>\<open>tinp\<close> is \<open>s\<close>.
\<close>

definition isspace :: "char \<Rightarrow> bool" where
  "isspace c \<longleftrightarrow> (of_char c :: nat) \<in> {32, 9, 10, 11, 12, 13}"

definition digit_of :: "char \<Rightarrow> nat option" where
  "digit_of c =
     (let k = (of_char c :: nat) in
      if 48 \<le> k \<and> k \<le> 57 then Some (k - 48)
      else if 97 \<le> k \<and> k \<le> 122 then Some (k - 87)
      else if 65 \<le> k \<and> k \<le> 90 then Some (k - 55)
      else None)"

fun strtol_digits :: "nat \<Rightarrow> string \<Rightarrow> nat \<Rightarrow> bool \<Rightarrow> nat \<times> bool \<times> string" where
  "strtol_digits b [] acc seen = (acc, seen, [])"
| "strtol_digits b (c # cs) acc seen =
     (case digit_of c of
        None \<Rightarrow> (acc, seen, c # cs)
      | Some d \<Rightarrow> if d < b then strtol_digits b cs (acc * b + d) True else (acc, seen, c # cs))"

definition is_hex_prefix :: "string \<Rightarrow> bool" where
  "is_hex_prefix s =
     (case s of
        z # x # d # _ \<Rightarrow> z = CHR ''0'' \<and> (x = CHR ''x'' \<or> x = CHR ''X'') \<and>
          (case digit_of d of None \<Rightarrow> False | Some k \<Rightarrow> k < 16)
      | _ \<Rightarrow> False)"

definition strtol :: "string \<Rightarrow> int \<times> string" where
  "strtol s =
     (let s1 = dropWhile isspace s;
          neg = (case s1 of c # _ \<Rightarrow> c = CHR ''-'' | [] \<Rightarrow> False);
          s2 = (case s1 of c # r \<Rightarrow> if c = CHR ''-'' \<or> c = CHR ''+'' then r else s1 | [] \<Rightarrow> s1);
          b = (if is_hex_prefix s2 then 16
               else (case s2 of c # _ \<Rightarrow> if c = CHR ''0'' then 8 else 10 | [] \<Rightarrow> 10));
          s3 = (if is_hex_prefix s2 then drop 2 s2 else s2)
      in case strtol_digits b s3 0 False of
           (v, seen, rest) \<Rightarrow>
             if \<not> seen then (0, s)
             else (if neg then max (- (2 ^ 63)) (- int v) else min (2 ^ 63 - 1) (int v), rest))"

text \<open>
  What the operating system answers to \<^verbatim>\<open>ftok\<close>, \<^verbatim>\<open>semConnect\<close>, \<^verbatim>\<open>shmemConnect\<close> and
  \<^verbatim>\<open>shmemAttach\<close>.
\<close>

record os_env =
  ftok_ok :: bool
  semConnect_ok :: bool
  shmemConnect_ok :: bool
  shmemAttach_ok :: bool

text \<open>
  \<^verbatim>\<open>main\<close> up to line 117: either the exit status, or the process about to call
  \<^verbatim>\<open>arrive (n)\<close>.  \<open>argc\<close> is the length of \<open>argv\<close>.  \<^verbatim>\<open>n\<close> is an \<^verbatim>\<open>int\<close>: the value of
  \<^verbatim>\<open>strtol\<close> is converted to \<^verbatim>\<open>unsigned int\<close> and stored in it, so \<open>n\<close> is the signed
  reading of the low 32 bits, and \<^verbatim>\<open>n >= NUMPLAYERS\<close> compares two \<^verbatim>\<open>int\<close>s
  (\<open>NUMPLAYERS\<close>, of probConst.h, is taken as an \<^verbatim>\<open>int\<close> constant).
\<close>

definition main_startup :: "int \<Rightarrow> string list \<Rightarrow> os_env \<Rightarrow> int + player" where
  "main_startup NUMPLAYERS argv env =
     (if length argv \<noteq> 4 then Inl EXIT_FAILURE
      else case strtol (argv ! 1) of
        (v, tinp) \<Rightarrow>
          (let n = sint (word_of_int v :: 32 word) in
           if tinp \<noteq> [] \<or> n \<ge> NUMPLAYERS then Inl EXIT_FAILURE
           else if \<not> ftok_ok env then Inl EXIT_FAILURE
           else if \<not> semConnect_ok env then Inl EXIT_FAILURE
           else if \<not> shmemConnect_ok env then Inl EXIT_FAILURE
           else if \<not> shmemAttach_ok env then Inl EXIT_FAILURE
           else Inr \<lparr>pc = L142, exited = None, id_p = n, ret = 0, player_type = 0,
                     count_p = 0, team = 0\<rparr>))"

section \<open>Notions used to state the properties\<close>

subsection \<open>The critical region\<close>

text \<open>
  The program points between a successful down of the mutex and the matching up: lines
  147 to 150 of \<^verbatim>\<open>arrive\<close>, 182 to 223 of \<^verbatim>\<open>playerConstituteTeam\<close>, 271 to 274 of
  \<^verbatim>\<open>waitReferee\<close> and 302 to 310 of \<^verbatim>\<open>playUntilEnd\<close>.
\<close>

definition in_cs :: "ppc \<Rightarrow> bool" where
  "in_cs c = (case c of L147 \<Rightarrow> True | L148 \<Rightarrow> True | L150 \<Rightarrow> True
    | L182 \<Rightarrow> True | L183 \<Rightarrow> True | L184 \<Rightarrow> True | L186 \<Rightarrow> True | L187 \<Rightarrow> True
    | L188 \<Rightarrow> True | L189 \<Rightarrow> True | L190 \<Rightarrow> True | L193 \<Rightarrow> True | L197 \<Rightarrow> True
    | L203 \<Rightarrow> True | L207 \<Rightarrow> True | L212 \<Rightarrow> True | L217 \<Rightarrow> True | L218 \<Rightarrow> True
    | L219 \<Rightarrow> True | L223 \<Rightarrow> True | L271 \<Rightarrow> True | L272 \<Rightarrow> True | L274 \<Rightarrow> True
    | L302 \<Rightarrow> True | L303 \<Rightarrow> True | L305 \<Rightarrow> True | L310 \<Rightarrow> True | _ \<Rightarrow> False)"

text \<open>
  Whether a process holds the mutex, read off the events it has performed so far: it has
  completed more downs of the mutex than ups.
\<close>

definition locks :: "event list \<Rightarrow> nat" where
  "locks tr = length (filter (\<lambda>e. e = SemDown mutex) tr)"

definition unlocks :: "event list \<Rightarrow> nat" where
  "unlocks tr = length (filter (\<lambda>e. e = SemUp mutex) tr)"

definition holds_mutex :: "event list \<Rightarrow> bool" where
  "holds_mutex tr \<longleftrightarrow> unlocks tr < locks tr"

text \<open>The events that read or write the counters or the status array of the shared region.\<close>

definition touches_shared :: "event \<Rightarrow> bool" where
  "touches_shared e =
     (case e of SetStat i v \<Rightarrow> True | SaveState \<Rightarrow> True | IncArrived v \<Rightarrow> True
      | TestFree f g \<Rightarrow> True | DecPlayersFree \<Rightarrow> True | DecGoaliesFree \<Rightarrow> True
      | IncPlayersFree \<Rightarrow> True | ClaimTeam v \<Rightarrow> True | ReadTeam v \<Rightarrow> True | _ \<Rightarrow> False)"

subsection \<open>The traces of one call of playerConstituteTeam\<close>

text \<open>
  \<open>v\<close> is the value of \<open>playersArrived\<close> after the increment of line 182, \<open>f\<close> and \<open>g\<close>
  are the values of \<open>playersFree\<close> and \<open>goaliesFree\<close> met by the test of line 186, \<open>i\<close>
  is the player's id and \<open>r\<close> the team identifier it obtains.
\<close>

definition entry :: "int \<Rightarrow> event list" where
  "entry v = [SemDown mutex, IncArrived v]"

fun rounds :: "nat \<Rightarrow> event list" where
  "rounds 0 = []"
| "rounds (Suc k) = rounds k @ [SemUp playersWaitTeam, SemDown playerRegistered]"

definition late_tr :: "int \<Rightarrow> int \<Rightarrow> event list" where
  "late_tr i v = entry v @ [SetStat i LATE, SaveState]"

definition lead_pre :: "int \<Rightarrow> int \<Rightarrow> int \<Rightarrow> int \<Rightarrow> event list" where
  "lead_pre i v f g =
     entry v @ [TestFree f g, DecPlayersFree, DecGoaliesFree, SetStat i FORMING_TEAM, SaveState]"

definition lead_tr :: "int \<Rightarrow> int \<Rightarrow> int \<Rightarrow> int \<Rightarrow> int \<Rightarrow> int \<Rightarrow> event list" where
  "lead_tr NTP i v f g r =
     lead_pre i v f g @ rounds (nat (NTP - 1)) @
     [SemUp goaliesWaitTeam, SemDown playerRegistered, ClaimTeam r]"

definition follow_pre :: "int \<Rightarrow> int \<Rightarrow> int \<Rightarrow> int \<Rightarrow> event list" where
  "follow_pre i v f g =
     entry v @ [TestFree f g, IncPlayersFree, SetStat i WAITING_TEAMS, SaveState]"

definition by_type :: "int \<Rightarrow> 'a \<Rightarrow> 'a \<Rightarrow> 'a \<Rightarrow> 'a \<Rightarrow> 'a" where
  "by_type t a b c d = (if t = 0 then a else if t = 1 then b else if t = 2 then c else d)"

text \<open>The events of the call so far, for a process at each program point of the call.\<close>

definition pct_shape :: "int \<Rightarrow> int \<Rightarrow> int \<Rightarrow> int \<Rightarrow> player \<Rightarrow> event list" where
  "pct_shape NTP v f g p =
    (let i = id_p p; r = ret p; t = player_type p in
     case pc p of
       L182 \<Rightarrow> [SemDown mutex]
     | L183 \<Rightarrow> entry v
     | L184 \<Rightarrow> entry v @ [SetStat i LATE]
     | L186 \<Rightarrow> entry v
     | L187 \<Rightarrow> entry v @ [TestFree f g]
     | L188 \<Rightarrow> entry v @ [TestFree f g, DecPlayersFree]
     | L189 \<Rightarrow> entry v @ [TestFree f g, DecPlayersFree, DecGoaliesFree]
     | L190 \<Rightarrow> entry v @ [TestFree f g, DecPlayersFree, DecGoaliesFree, SetStat i FORMING_TEAM]
     | L193 \<Rightarrow> lead_pre i v f g @ rounds (nat (count_p p))
     | L197 \<Rightarrow> lead_pre i v f g @ rounds (nat (count_p p)) @ [SemUp playersWaitTeam]
     | L203 \<Rightarrow> lead_pre i v f g @ rounds (nat (NTP - 1))
     | L207 \<Rightarrow> lead_pre i v f g @ rounds (nat (NTP - 1)) @ [SemUp goaliesWaitTeam]
     | L212 \<Rightarrow> lead_pre i v f g @ rounds (nat (NTP - 1)) @
                 [SemUp goaliesWaitTeam, SemDown playerRegistered]
     | L217 \<Rightarrow> entry v @ [TestFree f g]
     | L218 \<Rightarrow> entry v @ [TestFree f g, IncPlayersFree]
     | L219 \<Rightarrow> entry v @ [TestFree f g, IncPlayersFree, SetStat i WAITING_TEAMS]
     | L223 \<Rightarrow> by_type t (late_tr i v) (lead_tr NTP i v f g r) (follow_pre i v f g) []
     | L231 \<Rightarrow> lead_tr NTP i v f g r @ [SemUp mutex]
     | L237 \<Rightarrow> follow_pre i v f g @ [SemUp mutex]
     | L242 \<Rightarrow> follow_pre i v f g @ [SemUp mutex, SemDown playersWaitTeam]
     | L243 \<Rightarrow> follow_pre i v f g @ [SemUp mutex, SemDown playersWaitTeam, ReadTeam r]
     | L252 \<Rightarrow> by_type t (late_tr i v @ [SemUp mutex])
                 (lead_tr NTP i v f g r @ [SemUp mutex, SemUp refereeWaitTeams])
                 (follow_pre i v f g @
                    [SemUp mutex, SemDown playersWaitTeam, ReadTeam r, SemUp playerRegistered])
                 []
     | _ \<Rightarrow> [])"

text \<open>What the locals and the observed values satisfy at each program point of the call.\<close>

definition pct_cond :: "int \<Rightarrow> int \<Rightarrow> int \<Rightarrow> int \<Rightarrow> player \<Rightarrow> bool" where
  "pct_cond NTP v f g p =
    (let r = ret p; t = player_type p; c = count_p p;
         late = (8 < v);
         lead = (v \<le> 8 \<and> 3 \<le> f \<and> g \<noteq> 0);
         follow = (v \<le> 8 \<and> \<not> (3 \<le> f \<and> g \<noteq> 0)) in
     case pc p of
       L142 \<Rightarrow> False | L147 \<Rightarrow> False | L148 \<Rightarrow> False | L150 \<Rightarrow> False | L155 \<Rightarrow> False
     | L177 \<Rightarrow> True
     | L182 \<Rightarrow> r = 0
     | L183 \<Rightarrow> late \<and> r = 0 \<and> t = 0
     | L184 \<Rightarrow> late \<and> r = 0 \<and> t = 0
     | L186 \<Rightarrow> v \<le> 8 \<and> r = 0
     | L187 \<Rightarrow> lead | L188 \<Rightarrow> lead | L189 \<Rightarrow> lead | L190 \<Rightarrow> lead
     | L193 \<Rightarrow> lead \<and> 0 \<le> c \<and> (NTP < 2 \<or> c < NTP - 1)
     | L197 \<Rightarrow> lead \<and> 0 \<le> c \<and> (NTP < 2 \<or> c < NTP - 1)
     | L203 \<Rightarrow> lead \<and> 2 \<le> NTP | L207 \<Rightarrow> lead \<and> 2 \<le> NTP | L212 \<Rightarrow> lead \<and> 2 \<le> NTP
     | L217 \<Rightarrow> follow \<and> r = 0 | L218 \<Rightarrow> follow \<and> r = 0 | L219 \<Rightarrow> follow \<and> r = 0
     | L223 \<Rightarrow> by_type t (late \<and> r = 0) (lead \<and> 2 \<le> NTP) (follow \<and> r = 0) False
     | L231 \<Rightarrow> t = 1 \<and> lead \<and> 2 \<le> NTP
     | L237 \<Rightarrow> t = 2 \<and> follow \<and> r = 0
     | L242 \<Rightarrow> t = 2 \<and> follow
     | L243 \<Rightarrow> t = 2 \<and> follow
     | L249 \<Rightarrow> False
     | L252 \<Rightarrow> by_type t (late \<and> r = 0) (lead \<and> 2 \<le> NTP) follow False
     | _ \<Rightarrow> True)"

text \<open>The program points of \<^verbatim>\<open>main\<close> after the call has returned.\<close>

definition returned :: "ppc \<Rightarrow> bool" where
  "returned c = (case c of L266 \<Rightarrow> True | L271 \<Rightarrow> True | L272 \<Rightarrow> True | L274 \<Rightarrow> True
    | L279 \<Rightarrow> True | L297 \<Rightarrow> True | L302 \<Rightarrow> True | L303 \<Rightarrow> True | L305 \<Rightarrow> True
    | L310 \<Rightarrow> True | L315 \<Rightarrow> True | L125 \<Rightarrow> True | _ \<Rightarrow> False)"

definition pct_inv :: "int \<Rightarrow> player \<Rightarrow> event list \<Rightarrow> player \<Rightarrow> bool" where
  "pct_inv NTP p0 tr p \<longleftrightarrow>
     (exited p = None \<longrightarrow> id_p p = id_p p0 \<and>
        (returned (pc p) \<or> (\<exists>v f g. tr = pct_shape NTP v f g p \<and> pct_cond NTP v f g p)))"

text \<open>The program points of waitReferee and playUntilEnd.\<close>

definition in_match :: "ppc \<Rightarrow> bool" where
  "in_match c = (case c of L266 \<Rightarrow> True | L271 \<Rightarrow> True | L272 \<Rightarrow> True | L274 \<Rightarrow> True
    | L279 \<Rightarrow> True | L297 \<Rightarrow> True | L302 \<Rightarrow> True | L303 \<Rightarrow> True | L305 \<Rightarrow> True
    | L310 \<Rightarrow> True | L315 \<Rightarrow> True | _ \<Rightarrow> False)"

text \<open>The events that only waitReferee and playUntilEnd perform.\<close>

definition match_event :: "event \<Rightarrow> bool" where
  "match_event e =
     (case e of
        SetStat i v \<Rightarrow> v = WAITING_START_1 \<or> v = WAITING_START_2 \<or> v = PLAYING_1 \<or> v = PLAYING_2
      | SemDown c \<Rightarrow> c = playersWaitReferee \<or> c = playersWaitEnd
      | SemUp c \<Rightarrow> c = playing
      | _ \<Rightarrow> False)"

text \<open>
  The values returned by playerConstituteTeam, the team identifiers claimed, the values
  of \<open>playersArrived\<close> obtained at line 182 and the markings as LATE, each in order.
\<close>

definition rets :: "event list \<Rightarrow> int list" where
  "rets tr = concat (map (\<lambda>e. case e of Return r \<Rightarrow> [r] | _ \<Rightarrow> []) tr)"

definition claimed :: "event list \<Rightarrow> int list" where
  "claimed tr = concat (map (\<lambda>e. case e of ClaimTeam r \<Rightarrow> [r] | _ \<Rightarrow> []) tr)"

definition arrs :: "event list \<Rightarrow> int list" where
  "arrs tr = concat (map (\<lambda>e. case e of IncArrived v \<Rightarrow> [v] | _ \<Rightarrow> []) tr)"

definition lates :: "event list \<Rightarrow> int list" where
  "lates tr = concat (map (\<lambda>e. case e of SetStat i v \<Rightarrow> if v = LATE then [i] else [] | _ \<Rightarrow> []) tr)"

text \<open>
  What the events of a process say about where it is, in the whole life of the process.
  Until the call has returned there is no return and nothing of the match; inside the
  match the returned team is the value of \<open>team\<close> and is not 0; at the end (line 125)
  either 0 was returned and nothing of the match has happened, or the match was played
  until its end.
\<close>

definition life_inv :: "event list \<Rightarrow> player \<Rightarrow> bool" where
  "life_inv tr p =
    (let pre = (rets tr = [] \<and> filter match_event tr = []);
         m = (rets tr = [team p] \<and> team p \<noteq> 0) in
     case pc p of
       L266 \<Rightarrow> m | L271 \<Rightarrow> m | L272 \<Rightarrow> m | L274 \<Rightarrow> m | L279 \<Rightarrow> m | L297 \<Rightarrow> m
     | L302 \<Rightarrow> m | L303 \<Rightarrow> m | L305 \<Rightarrow> m | L310 \<Rightarrow> m | L315 \<Rightarrow> m
     | L125 \<Rightarrow> rets tr = [team p] \<and>
         (if team p = 0 then filter match_event tr = [] else SemDown playersWaitEnd \<in> set tr)
     | _ \<Rightarrow> pre)"

text \<open>
  A process arrived in time (the value of \<open>playersArrived\<close> it obtained is at most 8, and
  it has not been marked LATE) or too late (the value is above 8, and it claims no team).
\<close>

definition ontime :: "event list \<Rightarrow> bool" where
  "ontime tr \<longleftrightarrow> length (arrs tr) = 1 \<and> hd (arrs tr) \<le> 8 \<and> lates tr = []"

definition toolate :: "event list \<Rightarrow> bool" where
  "toolate tr \<longleftrightarrow> length (arrs tr) = 1 \<and> 8 < hd (arrs tr) \<and> claimed tr = []"

text \<open>
  A process is marked LATE exactly when it arrived too late, and then the value it
  returns is 0; a team identifier it has claimed is the value it returns.
\<close>

definition late_inv :: "event list \<Rightarrow> player \<Rightarrow> bool" where
  "late_inv tr p =
    (let none = (arrs tr = [] \<and> lates tr = [] \<and> claimed tr = []);
         i = id_p p; r = ret p; t = player_type p in
     case pc p of
       L142 \<Rightarrow> none | L147 \<Rightarrow> none | L148 \<Rightarrow> none | L150 \<Rightarrow> none | L155 \<Rightarrow> none
     | L177 \<Rightarrow> none
     | L182 \<Rightarrow> none \<and> r = 0
     | L183 \<Rightarrow> toolate tr \<and> lates tr = [] \<and> r = 0 \<and> t = 0
     | L184 \<Rightarrow> toolate tr \<and> lates tr = [i] \<and> r = 0 \<and> t = 0
     | L186 \<Rightarrow> ontime tr \<and> claimed tr = [] \<and> t = 0
     | L187 \<Rightarrow> ontime tr \<and> claimed tr = []
     | L188 \<Rightarrow> ontime tr \<and> claimed tr = []
     | L189 \<Rightarrow> ontime tr \<and> claimed tr = []
     | L190 \<Rightarrow> ontime tr \<and> claimed tr = []
     | L193 \<Rightarrow> ontime tr \<and> claimed tr = []
     | L197 \<Rightarrow> ontime tr \<and> claimed tr = []
     | L203 \<Rightarrow> ontime tr \<and> claimed tr = []
     | L207 \<Rightarrow> ontime tr \<and> claimed tr = []
     | L212 \<Rightarrow> ontime tr \<and> claimed tr = []
     | L217 \<Rightarrow> ontime tr \<and> claimed tr = [] \<and> t = 0
     | L218 \<Rightarrow> ontime tr \<and> claimed tr = [] \<and> t = 0
     | L219 \<Rightarrow> ontime tr \<and> claimed tr = []
     | L223 \<Rightarrow> (toolate tr \<and> lates tr = [i] \<and> r = 0 \<and> t = 0)
               \<or> (ontime tr \<and> claimed tr = (if t = 1 then [r] else []))
     | L231 \<Rightarrow> ontime tr \<and> claimed tr = [r]
     | L237 \<Rightarrow> ontime tr \<and> claimed tr = []
     | L242 \<Rightarrow> ontime tr \<and> claimed tr = []
     | L243 \<Rightarrow> ontime tr \<and> claimed tr = []
     | L249 \<Rightarrow> ontime tr \<and> claimed tr = []
     | L252 \<Rightarrow> (toolate tr \<and> lates tr = [i] \<and> r = 0)
               \<or> (ontime tr \<and> (claimed tr = [] \<or> claimed tr = [r]))
     | L125 \<Rightarrow> (toolate tr \<and> lates tr = [i] \<and> team p = 0)
               \<or> (ontime tr \<and> (claimed tr = [] \<or> claimed tr = [team p]))
     | _ \<Rightarrow> ontime tr \<and> (claimed tr = [] \<or> claimed tr = [team p]))"

subsection \<open>Runs of all processes\<close>

text \<open>The events of player \<open>i\<close> in a run, and the arrivals (line 182) of a run in order.\<close>

fun proj :: "nat \<Rightarrow> gevent list \<Rightarrow> event list" where
  "proj i [] = []"
| "proj i (PlayerEv k e # xs) = (if k = i then e # proj i xs else proj i xs)"
| "proj i (PeerEv c # xs) = proj i xs"



text \<open>
  Program points of a leader between the snapshot of line 190 and the claim of line 212,
  and the program points from which line 212 can still be reached.
\<close>

definition handshaking :: "ppc \<Rightarrow> bool" where
  "handshaking c = (case c of L193 \<Rightarrow> True | L197 \<Rightarrow> True | L203 \<Rightarrow> True | L207 \<Rightarrow> True
    | L212 \<Rightarrow> True | _ \<Rightarrow> False)"


text \<open>The players whose program counter is in \<open>S\<close>.\<close>

definition at :: "ppc set \<Rightarrow> system \<Rightarrow> nat set" where
  "at S s = {k. pc (players s k) \<in> S}"

text \<open>
  Mutual exclusion: the mutex is free and nobody is in a critical region, or it is taken
  and exactly one process (a player or a peer) is.
\<close>

definition mut_inv :: "system \<Rightarrow> bool" where
  "mut_inv s \<longleftrightarrow>
     sems s mutex + peers_locked s \<le> 1 \<and>
     (at (Collect in_cs) s \<noteq> {} \<longrightarrow> sems s mutex = 0 \<and> peers_locked s = 0) \<and>
     (\<forall>i \<in> at (Collect in_cs) s. \<forall>j \<in> at (Collect in_cs) s. i = j)"

text \<open>
  The free counters: never negative, and a leader that has passed the test of line 186
  still finds what it tested until it has taken it.
\<close>

definition free_inv :: "system \<Rightarrow> bool" where
  "free_inv s \<longleftrightarrow>
     0 \<le> playersFree (shm s) \<and> 0 \<le> goaliesFree (shm s) \<and>
     (at {L187} s \<noteq> {} \<longrightarrow> 3 \<le> playersFree (shm s) \<and> 1 \<le> goaliesFree (shm s)) \<and>
     (at {L188} s \<noteq> {} \<longrightarrow> 1 \<le> goaliesFree (shm s))"

text \<open>
  The handshake: at most one call or acknowledgement is under way at any time (a signal
  in \<open>playersWaitTeam\<close>, \<open>goaliesWaitTeam\<close> or \<open>playerRegistered\<close>, a follower that was
  woken at line 237 and has not yet registered at line 243, a called goalie), and only
  while a leader waits for it at line 197 or 207.
\<close>

definition tok_inv :: "system \<Rightarrow> bool" where
  "tok_inv s \<longleftrightarrow>
     sems s playersWaitTeam + sems s goaliesWaitTeam + sems s playerRegistered
       + peers_pending s \<le> 1 \<and>
     (\<forall>i \<in> at {L242, L243} s. \<forall>k \<in> at {L242, L243} s. i = k) \<and>
     (at {L242, L243} s \<noteq> {} \<longrightarrow>
        sems s playersWaitTeam = 0 \<and> sems s goaliesWaitTeam = 0 \<and>
        sems s playerRegistered = 0 \<and> peers_pending s = 0) \<and>
     (0 < sems s playersWaitTeam \<or> at {L242, L243} s \<noteq> {} \<longrightarrow> at {L197} s \<noteq> {}) \<and>
     (0 < sems s goaliesWaitTeam \<or> 0 < peers_pending s \<longrightarrow> at {L207} s \<noteq> {}) \<and>
     (0 < sems s playerRegistered \<longrightarrow> at {L197} s \<noteq> {} \<or> at {L207} s \<noteq> {})"

definition ginv :: "system \<Rightarrow> bool" where
  "ginv s \<longleftrightarrow> mut_inv s \<and> free_inv s \<and> tok_inv s"

subsection \<open>Waiting, the match, the status array and the reservations\<close>

text \<open>The semaphore a process waits on at a program point, if the statement there is a down.\<close>

definition waits_on :: "ppc \<Rightarrow> sem option" where
  "waits_on c = (case c of L142 \<Rightarrow> Some mutex | L177 \<Rightarrow> Some mutex
    | L197 \<Rightarrow> Some playerRegistered | L207 \<Rightarrow> Some playerRegistered
    | L237 \<Rightarrow> Some playersWaitTeam | L266 \<Rightarrow> Some mutex
    | L279 \<Rightarrow> Some playersWaitReferee | L297 \<Rightarrow> Some mutex
    | L315 \<Rightarrow> Some playersWaitEnd | _ \<Rightarrow> None)"

text \<open>
  The events of waitReferee (lines 266 to 279) followed by those of playUntilEnd (lines
  297 to 315) for player \<open>i\<close> in team \<open>t\<close>, and how many of them a process has done when
  it is at a program point of the match (all eleven at line 125).
\<close>

definition match_events :: "int \<Rightarrow> int \<Rightarrow> event list" where
  "match_events i t =
     [SemDown mutex, SetStat i (if t = 1 then WAITING_START_1 else WAITING_START_2), SaveState,
      SemUp mutex, SemDown playersWaitReferee,
      SemDown mutex, SetStat i (if t = 1 then PLAYING_1 else PLAYING_2), SaveState,
      SemUp playing, SemUp mutex, SemDown playersWaitEnd]"

definition match_done :: "ppc \<Rightarrow> nat" where
  "match_done c = (case c of L266 \<Rightarrow> 0 | L271 \<Rightarrow> 1 | L272 \<Rightarrow> 2 | L274 \<Rightarrow> 3 | L279 \<Rightarrow> 4
    | L297 \<Rightarrow> 5 | L302 \<Rightarrow> 6 | L303 \<Rightarrow> 7 | L305 \<Rightarrow> 8 | L310 \<Rightarrow> 9 | L315 \<Rightarrow> 10
    | L125 \<Rightarrow> 11 | _ \<Rightarrow> 0)"

text \<open>
  A process that has not ended and is inside the match, or at line 125 with a team other
  than 0: its events end with the return of its team and the events of the match it has
  done so far.
\<close>

definition match_inv :: "event list \<Rightarrow> player \<Rightarrow> bool" where
  "match_inv tr p \<longleftrightarrow>
     (exited p = None \<and> (in_match (pc p) \<or> (pc p = L125 \<and> team p \<noteq> 0)) \<longrightarrow>
        (\<exists>pre. tr = pre @ Return (team p)
                  # take (match_done (pc p)) (match_events (id_p p) (team p))))"








subsection \<open>Concrete processes and runs\<close>

text \<open>The player with id \<open>i\<close> as \<^verbatim>\<open>main\<close> starts it, and a shared region whose first team identifier is 1.\<close>

definition player0 :: "int \<Rightarrow> player" where
  "player0 i = \<lparr>pc = L142, exited = None, id_p = i, ret = 0, player_type = 0,
                 count_p = 0, team = 0\<rparr>"

definition shm0 :: FULL_STAT where
  "shm0 = \<lparr>st = \<lparr>playerStat = (\<lambda>i. ARRIVING)\<rparr>, playersArrived = 0, playersFree = 0,
            goaliesFree = 0, teamId = 1\<rparr>"

definition sems0 :: sems where
  "sems0 = (\<lambda>x. 0)(mutex := 1)"

definition system0 :: system where
  "system0 = \<lparr>players = (\<lambda>i. player0 (int i)), shm = shm0, sems = sems0,
               peers_locked = 0, peers_pending = 0\<rparr>"

text \<open>Pieces of schedules: \<open>k\<close> steps of player \<open>i\<close>; a goalie arrives; a called goalie registers.\<close>

definition steps :: "nat \<Rightarrow> nat \<Rightarrow> choice list" where
  "steps i k = replicate k (RunPlayer i False)"

definition goalie_arrives :: "choice list" where
  "goalie_arrives = [PeerLock, PeerIncFree, PeerUnlock]"

definition goalie_joins :: "choice list" where
  "goalie_joins = [PeerDown goaliesWaitTeam, PeerRegister]"

text \<open>
  A goalie arrives; players 0, 1 and 2 arrive and wait for a team; player 3 arrives, finds
  three free players and a free goalie, and calls the first of them.
\<close>

definition sched_call :: "choice list" where
  "sched_call = goalie_arrives @ steps 0 12 @ steps 1 12 @ steps 2 12 @ steps 3 13"

text \<open>... player 0 wakes up (line 237).\<close>

definition sched_woken :: "choice list" where
  "sched_woken = sched_call @ steps 0 1"

text \<open>
  ... and the team is completed (\<open>NUMTEAMPLAYERS = 4\<close>): the three players and the goalie
  register in turn, player 3 claims the team and tells the referee.
\<close>

definition sched_team :: "choice list" where
  "sched_team = sched_woken @ steps 0 2 @ steps 3 2 @ steps 1 3 @ steps 3 2 @ steps 2 3
     @ steps 3 2 @ goalie_joins @ steps 3 4"


text \<open>
  A player that has finished arrive and calls playerConstituteTeam, a shared region with
  given counters, and semaphores in which four acknowledgements are already waiting.
\<close>

definition at_call :: "int \<Rightarrow> player" where
  "at_call i = (player0 i)\<lparr>pc := L177\<rparr>"

definition shm_of :: "int \<Rightarrow> int \<Rightarrow> int \<Rightarrow> int \<Rightarrow> FULL_STAT" where
  "shm_of a f g t = \<lparr>st = \<lparr>playerStat = (\<lambda>i. ARRIVING)\<rparr>, playersArrived = a, playersFree = f,
                     goaliesFree = g, teamId = t\<rparr>"

definition sems_reg :: sems where
  "sems_reg = ((\<lambda>x. 0)(mutex := 1))(playerRegistered := 4)"

text \<open>Semaphores in which a call of a leader is already waiting.\<close>

definition sems_call :: sems where
  "sems_call = ((\<lambda>x. 0)(mutex := 1))(playersWaitTeam := 1)"

text \<open>
  The run \<open>sched_call\<close> without the last step of player 3, which is then about to take
  the three players it has found (line 187).
\<close>

definition sched_test :: "choice list" where
  "sched_test = goalie_arrives @ steps 0 12 @ steps 1 12 @ steps 2 12 @ steps 3 8"

definition os_ok :: os_env where
  "os_ok = \<lparr>ftok_ok = True, semConnect_ok = True, shmemConnect_ok = True,
            shmemAttach_ok = True\<rparr>"

text \<open>
  The run of a schedule with four field players in a team, from \<open>system0\<close>: whether every
  choice of the schedule could step, the events of the run and the state it ends in.
\<close>

definition run_ok :: "choice list \<Rightarrow> bool" where
  "run_ok cs \<longleftrightarrow> schedule 4 cs ([], system0) \<noteq> None"

definition run_trace :: "choice list \<Rightarrow> gevent list" where
  "run_trace cs = (case schedule 4 cs ([], system0) of None \<Rightarrow> [] | Some (tr, s) \<Rightarrow> tr)"

definition run_state :: "choice list \<Rightarrow> system" where
  "run_state cs = (case schedule 4 cs ([], system0) of None \<Rightarrow> system0 | Some (tr, s) \<Rightarrow> s)"

text \<open>The schedules in which the leader (player 3) waits at line 197, and in which the first
  follower reads \<open>teamId\<close>.\<close>

definition sched_wait :: "choice list" where
  "sched_wait = sched_woken @ steps 0 2 @ steps 3 1"

definition sched_read :: "choice list" where
  "sched_read = sched_woken @ steps 0 1"



section \<open>One player on its own\<close>

lemmas step_defs = player_step_def semDown_def semUp_def switch_target_def set_playerStat_def

lemmas shape_defs = pct_shape_def pct_cond_def entry_def late_tr_def lead_pre_def lead_tr_def
  follow_pre_def by_type_def

lemma step_not_exited:
  "player_step NTP fl p sh sm = Some (ev, p', sh', sm') \<Longrightarrow> exited p = None"
  by (simp add: player_step_def split: if_splits)

lemma solo_pexec:
  "solo NTP k (tr0, p, sh, sm) = (tr, p', sh', sm') \<Longrightarrow> pexec NTP p0 tr0 p \<Longrightarrow> pexec NTP p0 tr p'"
proof (induction k arbitrary: tr0 p sh sm)
  case 0
  then show ?case by simp
next
  case (Suc k)
  show ?case
  proof (cases "player_step NTP False p sh sm")
    case None
    with Suc.prems show ?thesis by simp
  next
    case (Some r)
    obtain ev q sh1 sm1 where r: "r = (ev, q, sh1, sm1)" by (cases r) auto
    from Suc.prems(2) Some r have "pexec NTP p0 (tr0 @ [ev]) q"
      by (auto intro: pexec_step)
    moreover from Suc.prems(1) Some r have "solo NTP k (tr0 @ [ev], q, sh1, sm1) = (tr, p', sh', sm')"
      by simp
    ultimately show ?thesis by (rule Suc.IH[rotated])
  qed
qed

subsection \<open>The mutex is held exactly inside the critical regions\<close>

lemma step_lock:
  assumes "player_step NTP fl p sh sm = Some (ev, p', sh', sm')"
  shows "(if in_cs (pc p) then 1 else 0) + locks [ev]
       = unlocks [ev] + (if in_cs (pc p') then (1::nat) else 0)"
  using assms
  by (cases "pc p"; clarsimp simp: step_defs in_cs_def locks_def unlocks_def split: if_splits)

lemma lock_inv:
  "pexec NTP p0 tr p \<Longrightarrow> \<not> in_cs (pc p0)
     \<Longrightarrow> locks tr = unlocks tr + (if in_cs (pc p) then 1 else 0)"
proof (induction rule: pexec.induct)
  case pexec_init
  then show ?case by (simp add: locks_def unlocks_def)
next
  case (pexec_step tr p fl sh sm ev p' sh' sm')
  from step_lock[OF pexec_step.hyps(2)] pexec_step.IH[OF pexec_step.prems]
  show ?case by (simp add: locks_def unlocks_def split: if_splits)
qed

lemma holds_mutex_iff:
  "pexec NTP p0 tr p \<Longrightarrow> \<not> in_cs (pc p0) \<Longrightarrow> holds_mutex tr \<longleftrightarrow> in_cs (pc p)"
  by (drule (1) lock_inv) (simp add: holds_mutex_def)

lemma step_wait_in_cs:
  assumes "player_step NTP fl p sh sm = Some (SemDown c, p', sh', sm')"
    and "c \<noteq> mutex" and "in_cs (pc p)"
  shows "c = playerRegistered \<and> (pc p = L197 \<or> pc p = L207)"
  using assms
  by (cases "pc p"; clarsimp simp: step_defs in_cs_def split: if_splits)

lemma step_shared_outside_cs:
  assumes "player_step NTP fl p sh sm = Some (ev, p', sh', sm')"
    and "touches_shared ev" and "\<not> in_cs (pc p)"
  shows "pc p = L242 \<and> ev = ReadTeam (teamId sh)"
  using assms
  by (cases "pc p"; clarsimp simp: step_defs in_cs_def touches_shared_def split: if_splits)

lemma step_into_L242:
  assumes "player_step NTP fl p sh sm = Some (ev, p', sh', sm')" and "pc p' = L242"
  shows "ev = SemDown playersWaitTeam \<or> pc p = L242"
  using assms
  by (cases "pc p"; clarsimp simp: step_defs split: if_splits)

lemma at_L242_last:
  "pexec NTP p0 tr p \<Longrightarrow> pc p = L242 \<Longrightarrow> exited p = None \<Longrightarrow> pc p0 \<noteq> L242
     \<Longrightarrow> tr \<noteq> [] \<and> last tr = SemDown playersWaitTeam"
proof (induction rule: pexec.induct)
  case pexec_init
  then show ?case by simp
next
  case (pexec_step tr p fl sh sm ev p' sh' sm')
  from step_into_L242[OF pexec_step.hyps(2) pexec_step.prems(1)]
  show ?case
  proof
    assume "ev = SemDown playersWaitTeam"
    then show ?thesis by simp
  next
    assume a: "pc p = L242"
    with pexec_step.hyps(2) pexec_step.prems(1) have False
      by (auto simp: step_defs split: if_splits)
    then show ?thesis ..
  qed
qed


subsection \<open>The events of one call of playerConstituteTeam\<close>

lemma rounds_next:
  "0 \<le> c \<Longrightarrow> rounds (nat (c + 1)) = rounds (nat c) @ [SemUp playersWaitTeam, SemDown playerRegistered]"
  by (simp add: nat_add_distrib)

lemma rounds_next':
  "0 \<le> c \<Longrightarrow> rounds (nat (1 + c)) = rounds (nat c) @ [SemUp playersWaitTeam, SemDown playerRegistered]"
  by (simp add: nat_add_distrib)

lemma rounds_set:
  "e \<in> set (rounds k) \<Longrightarrow> e = SemUp playersWaitTeam \<or> e = SemDown playerRegistered"
  by (induction k) auto

lemma pct_inv_step:
  assumes "player_step NTP fl p sh sm = Some (ev, p', sh', sm')"
    and "pct_inv NTP p0 tr p"
  shows "pct_inv NTP p0 (tr @ [ev]) p'"
  using assms
  apply (cases "pc p"; clarsimp simp: step_defs pct_inv_def returned_def Let_def split: if_splits)
  apply (auto simp: shape_defs rounds_next rounds_next' Let_def)
  done

lemma pct_inv_pexec:
  assumes "pexec NTP p0 tr p" and "pc p0 = L177" and "exited p0 = None"
  shows "pct_inv NTP p0 tr p"
  using assms
proof (induction rule: pexec.induct)
  case pexec_init
  then show ?case by (simp add: pct_inv_def shape_defs)
next
  case (pexec_step tr p fl sh sm ev p' sh' sm')
  then show ?case using pct_inv_step by blast
qed

lemma pct_at_return:
  assumes "pexec NTP p0 tr p" and "pc p0 = L177" and "exited p0 = None"
    and "pc p = L252" and "exited p = None"
  shows "\<exists>v f g.
       (player_type p = 0 \<and> 8 < v \<and> ret p = 0 \<and> tr = late_tr (id_p p0) v @ [SemUp mutex])
     \<or> (player_type p = 1 \<and> v \<le> 8 \<and> 3 \<le> f \<and> g \<noteq> 0 \<and> 2 \<le> NTP \<and>
         tr = lead_tr NTP (id_p p0) v f g (ret p) @ [SemUp mutex, SemUp refereeWaitTeams])
     \<or> (player_type p = 2 \<and> v \<le> 8 \<and> \<not> (3 \<le> f \<and> g \<noteq> 0) \<and>
         tr = follow_pre (id_p p0) v f g @
           [SemUp mutex, SemDown playersWaitTeam, ReadTeam (ret p), SemUp playerRegistered])"
proof -
  from pct_inv_pexec[OF assms(1-3)] assms(4,5)
  obtain v f g where "tr = pct_shape NTP v f g p" "pct_cond NTP v f g p" "id_p p = id_p p0"
    by (auto simp: pct_inv_def returned_def)
  with assms(4) show ?thesis
    apply (rule_tac x = v in exI)
    apply (rule_tac x = f in exI)
    apply (rule_tac x = g in exI)
    apply (simp add: pct_shape_def pct_cond_def by_type_def Let_def split: if_splits)
    done
qed


lemma late_shape:
  assumes "pexec NTP p0 tr p" and "pc p0 = L177" and "exited p0 = None"
    and "pc p = L252" and "exited p = None"
    and "IncArrived v \<in> set tr" and "8 < v"
  shows "tr = [SemDown mutex, IncArrived v, SetStat (id_p p0) LATE, SaveState, SemUp mutex]
     \<and> ret p = 0"
  using pct_at_return[OF assms(1-5)] assms(6,7)
  by (auto simp: late_tr_def lead_tr_def lead_pre_def follow_pre_def entry_def dest: rounds_set)


lemma count_rounds:
  "count_list (rounds k) (SemUp playersWaitTeam) = k \<and> count_list (rounds k) (SemDown playerRegistered) = k"
  by (induction k) auto

lemma no_default_case:
  assumes "pexec NTP p0 tr p" and "pc p0 = L177" and "exited p0 = None" and "exited p = None"
  shows "pc p \<noteq> L249 \<and> (pc p = L223 \<longrightarrow> player_type p = 0 \<or> player_type p = 1 \<or> player_type p = 2)"
  using pct_inv_pexec[OF assms(1-3)] assms(4)
  by (auto simp: pct_inv_def returned_def pct_cond_def by_type_def Let_def split: if_splits)

lemma default_branch_step:
  assumes "pc p = L249" and "exited p = None"
  shows "player_step NTP fl p sh sm = Some (Perror, p\<lparr>pc := L252\<rparr>, sh, sm)"
  using assms by (simp add: player_step_def)

subsection \<open>The whole life of a player\<close>

lemma arrs_snoc: "arrs (tr @ [e]) = arrs tr @ (case e of IncArrived v \<Rightarrow> [v] | _ \<Rightarrow> [])"
  by (simp add: arrs_def)

lemma lates_snoc:
  "lates (tr @ [e]) = lates tr @ (case e of SetStat i v \<Rightarrow> if v = LATE then [i] else [] | _ \<Rightarrow> [])"
  by (simp add: lates_def)

lemma claimed_snoc: "claimed (tr @ [e]) = claimed tr @ (case e of ClaimTeam r \<Rightarrow> [r] | _ \<Rightarrow> [])"
  by (simp add: claimed_def)

lemma rets_snoc: "rets (tr @ [e]) = rets tr @ (case e of Return r \<Rightarrow> [r] | _ \<Rightarrow> [])"
  by (simp add: rets_def)

lemmas snoc_simps = arrs_snoc lates_snoc claimed_snoc rets_snoc

lemma life_inv_step:
  assumes "player_step NTP fl p sh sm = Some (ev, p', sh', sm')" and "life_inv tr p"
  shows "life_inv (tr @ [ev]) p'"
  using assms
  by (cases "pc p"; clarsimp simp: step_defs Let_def split: if_splits;
      auto simp: life_inv_def match_event_def snoc_simps Let_def)

lemma life_inv_pexec:
  assumes "pexec NTP p0 tr p" and "\<not> returned (pc p0)"
  shows "life_inv tr p"
  using assms
proof (induction rule: pexec.induct)
  case pexec_init
  then show ?case
    by (cases "pc p0"; simp add: life_inv_def rets_def returned_def)
next
  case (pexec_step tr p fl sh sm ev p' sh' sm')
  then show ?case using life_inv_step by blast
qed

lemma late_inv_step:
  assumes "player_step NTP fl p sh sm = Some (ev, p', sh', sm')" and "late_inv tr p"
  shows "late_inv (tr @ [ev]) p'"
  using assms
  by (cases "pc p"; clarsimp simp: step_defs Let_def split: if_splits;
      auto simp: late_inv_def ontime_def toolate_def snoc_simps Let_def)

lemma late_inv_pexec:
  assumes "pexec NTP p0 tr p" and "pc p0 = L142 \<or> pc p0 = L177"
  shows "late_inv tr p"
  using assms
proof (induction rule: pexec.induct)
  case pexec_init
  then show ?case by (auto simp: late_inv_def arrs_def lates_def claimed_def)
next
  case (pexec_step tr p fl sh sm ev p' sh' sm')
  then show ?case using late_inv_step by blast
qed

lemma rounds_mem [simp]:
  "IncArrived v \<notin> set (rounds k)" "TestFree f g \<notin> set (rounds k)"
  "ClaimTeam r \<notin> set (rounds k)" "SemUp mutex \<notin> set (rounds k)"
  "SemDown mutex \<notin> set (rounds k)" "SetStat i x \<notin> set (rounds k)"
  "SemUp refereeWaitTeams \<notin> set (rounds k)" "SemUp goaliesWaitTeam \<notin> set (rounds k)"
  by (auto dest: rounds_set)

lemma leader_branch:
  assumes "pexec NTP p0 tr p" and "pc p0 = L177" and "exited p0 = None"
    and "exited p = None" and "\<not> returned (pc p)"
    and "IncArrived v \<in> set tr" and "v \<le> 8" and "TestFree f g \<in> set tr" and "3 \<le> f" and "1 \<le> g"
  shows "(handshaking (pc p) \<or> pc p = L187 \<or> pc p = L188 \<or> pc p = L189 \<or> pc p = L190
          \<or> ((pc p = L223 \<or> pc p = L231 \<or> pc p = L252) \<and> player_type p = 1))
       \<and> (SemUp mutex \<in> set tr \<longrightarrow>
            (\<exists>r rest. tr = lead_tr NTP (id_p p0) v f g r @ SemUp mutex # rest))"
proof -
  from pct_inv_pexec[OF assms(1-3)] assms(4,5)
  obtain v0 f0 g0 where *: "tr = pct_shape NTP v0 f0 g0 p" "pct_cond NTP v0 f0 g0 p" "id_p p = id_p p0"
    by (auto simp: pct_inv_def)
  with assms(5-10) show ?thesis
    by (cases "pc p"; clarsimp simp: shape_defs handshaking_def returned_def Let_def split: if_splits)
qed

section \<open>All processes together\<close>

lemma mem_at: "k \<in> at S s \<longleftrightarrow> pc (players s k) \<in> S"
  by (simp add: at_def)

lemma at_upd:
  "at S (s\<lparr>players := (players s)(i := p'), shm := sh', sems := sm'\<rparr>) =
     (if pc p' \<in> S then insert i (at S s) else at S s - {i})"
  by (auto simp: at_def)

lemma at_same:
  assumes "pc p' \<in> S \<longleftrightarrow> pc (players s i) \<in> S"
  shows "at S (s\<lparr>players := (players s)(i := p'), shm := sh', sems := sm'\<rparr>) = at S s"
  using assms by (auto simp: at_def)

lemma at_enter:
  assumes "pc p' \<in> S"
  shows "at S (s\<lparr>players := (players s)(i := p'), shm := sh', sems := sm'\<rparr>) = insert i (at S s)"
  using assms by (simp add: at_upd)

lemma at_leave:
  assumes "pc p' \<notin> S"
  shows "at S (s\<lparr>players := (players s)(i := p'), shm := sh', sems := sm'\<rparr>) = at S s - {i}"
  using assms by (simp add: at_upd)

lemma cs_only_one:
  assumes "mut_inv s" and "in_cs (pc (players s i))" and "S \<subseteq> Collect in_cs"
  shows "at S s \<subseteq> {i}"
proof
  fix k assume "k \<in> at S s"
  with assms(3) have "k \<in> at (Collect in_cs) s" by (auto simp: mem_at)
  moreover from assms(2) have "i \<in> at (Collect in_cs) s" by (simp add: mem_at)
  ultimately have "k = i" using assms(1) by (simp add: mut_inv_def)
  then show "k \<in> {i}" by simp
qed

lemma cs_excludes:
  assumes "mut_inv s" and "in_cs (pc (players s i))" and "S \<subseteq> Collect in_cs"
    and "pc (players s i) \<notin> S"
  shows "at S s = {}"
proof -
  from cs_only_one[OF assms(1-3)] have "at S s \<subseteq> {i}" .
  moreover from assms(4) have "i \<notin> at S s" by (simp add: mem_at)
  ultimately show ?thesis by blast
qed

subsection \<open>Mutual exclusion\<close>

lemma step_mutex:
  assumes "player_step NTP fl p sh sm = Some (ev, p', sh', sm')"
  shows "(\<not> in_cs (pc p) \<and> in_cs (pc p') \<and> 0 < sm mutex \<and> sm' mutex = sm mutex - 1 \<and> sh' = sh)
       \<or> (in_cs (pc p) \<and> \<not> in_cs (pc p') \<and> sm' mutex = sm mutex + 1 \<and> sh' = sh)
       \<or> (in_cs (pc p') = in_cs (pc p) \<and> sm' mutex = sm mutex)"
  using assms
  by (cases "pc p"; clarsimp simp: step_defs in_cs_def split: if_splits)

lemma mut_inv_player:
  assumes inv: "mut_inv s"
    and st: "player_step NTP fl (players s i) (shm s) (sems s) = Some (ev, p', sh', sm')"
  shows "mut_inv (s\<lparr>players := (players s)(i := p'), shm := sh', sems := sm'\<rparr>)"
proof -
  let ?C = "at (Collect in_cs) s"
  let ?s' = "s\<lparr>players := (players s)(i := p'), shm := sh', sems := sm'\<rparr>"
  have iC: "i \<in> ?C \<longleftrightarrow> in_cs (pc (players s i))" by (simp add: mem_at)
  have C': "at (Collect in_cs) ?s' = (if in_cs (pc p') then insert i ?C else ?C - {i})"
    by (simp add: at_upd)
  from inv have a1: "sems s mutex + peers_locked s \<le> 1"
    and a2: "?C \<noteq> {} \<Longrightarrow> sems s mutex = 0 \<and> peers_locked s = 0"
    and a3: "\<And>a b. a \<in> ?C \<Longrightarrow> b \<in> ?C \<Longrightarrow> a = b"
    by (simp_all add: mut_inv_def)
  from step_mutex[OF st] show ?thesis
  proof (elim disjE conjE)
    assume d: "\<not> in_cs (pc (players s i))" "in_cs (pc p')" "0 < sems s mutex"
      "sm' mutex = sems s mutex - 1"
    from d(3) a2 have e: "?C = {}" by fastforce
    from d(3) a1 have "sems s mutex = 1" "peers_locked s = 0" by simp_all
    with d e C' show ?thesis by (simp add: mut_inv_def)
  next
    assume u: "in_cs (pc (players s i))" "\<not> in_cs (pc p')" "sm' mutex = sems s mutex + 1"
    from u(1) iC have m: "i \<in> ?C" by simp
    with a2 have z: "sems s mutex = 0" "peers_locked s = 0" by auto
    from m a3 have "?C = {i}" by blast
    with u z C' show ?thesis by (simp add: mut_inv_def)
  next
    assume e: "in_cs (pc p') = in_cs (pc (players s i))" "sm' mutex = sems s mutex"
    from e(1) iC C' have "at (Collect in_cs) ?s' = ?C" by auto
    with e(2) inv show ?thesis by (simp add: mut_inv_def)
  qed
qed

subsection \<open>The free counters\<close>

lemma step_free:
  assumes "player_step NTP fl p sh sm = Some (ev, p', sh', sm')"
  shows "(pc p = L186 \<and> pc p' = L187 \<and> 3 \<le> playersFree sh \<and> goaliesFree sh \<noteq> 0 \<and> sh' = sh)
       \<or> (pc p = L187 \<and> pc p' = L188 \<and> playersFree sh' = playersFree sh - 3
            \<and> goaliesFree sh' = goaliesFree sh)
       \<or> (pc p = L188 \<and> pc p' = L189 \<and> playersFree sh' = playersFree sh
            \<and> goaliesFree sh' = goaliesFree sh - 1)
       \<or> (pc p = L217 \<and> pc p' = L218 \<and> playersFree sh' = playersFree sh + 1
            \<and> goaliesFree sh' = goaliesFree sh)
       \<or> (pc p \<noteq> L187 \<and> pc p \<noteq> L188 \<and> pc p' \<noteq> L187 \<and> pc p' \<noteq> L188
            \<and> playersFree sh' = playersFree sh \<and> goaliesFree sh' = goaliesFree sh)"
  using assms
  by (cases "pc p"; clarsimp simp: step_defs split: if_splits)

lemma free_inv_player:
  assumes mi: "mut_inv s" and inv: "free_inv s"
    and st: "player_step NTP fl (players s i) (shm s) (sems s) = Some (ev, p', sh', sm')"
  shows "free_inv (s\<lparr>players := (players s)(i := p'), shm := sh', sems := sm'\<rparr>)"
proof -
  let ?s' = "s\<lparr>players := (players s)(i := p'), shm := sh', sems := sm'\<rparr>"
  from inv have f1: "0 \<le> playersFree (shm s)" and f2: "0 \<le> goaliesFree (shm s)"
    and f3: "at {L187} s \<noteq> {} \<Longrightarrow> 3 \<le> playersFree (shm s) \<and> 1 \<le> goaliesFree (shm s)"
    and f4: "at {L188} s \<noteq> {} \<Longrightarrow> 1 \<le> goaliesFree (shm s)"
    by (simp_all add: free_inv_def)
  have sub: "{L187} \<subseteq> Collect in_cs" "{L188} \<subseteq> Collect in_cs" by (simp_all add: in_cs_def)
  from step_free[OF st] show ?thesis
  proof (elim disjE conjE)
    assume a: "pc (players s i) = L186" "pc p' = L187" "3 \<le> playersFree (shm s)"
      "goaliesFree (shm s) \<noteq> 0" "sh' = shm s"
    from a(1) have cs: "in_cs (pc (players s i))" by (simp add: in_cs_def)
    from cs_excludes[OF mi cs sub(2)] a(1) have e8: "at {L188} s = {}" by simp
    from a(2) have "at {L188} ?s' = at {L188} s - {i}" by (simp add: at_upd)
    with e8 have "at {L188} ?s' = {}" by simp
    with a f1 f2 show ?thesis by (simp add: free_inv_def)
  next
    assume a: "pc (players s i) = L187" "pc p' = L188"
      "playersFree sh' = playersFree (shm s) - 3" "goaliesFree sh' = goaliesFree (shm s)"
    from a(1) have cs: "in_cs (pc (players s i))" by (simp add: in_cs_def)
    from a(1) have "i \<in> at {L187} s" by (simp add: mem_at)
    with f3 have g: "3 \<le> playersFree (shm s)" "1 \<le> goaliesFree (shm s)" by auto
    from cs_only_one[OF mi cs sub(1)] have "at {L187} s \<subseteq> {i}" .
    moreover from a(2) have "at {L187} ?s' = at {L187} s - {i}" by (simp add: at_upd)
    ultimately have "at {L187} ?s' = {}" by blast
    with a g show ?thesis by (simp add: free_inv_def)
  next
    assume a: "pc (players s i) = L188" "pc p' = L189"
      "playersFree sh' = playersFree (shm s)" "goaliesFree sh' = goaliesFree (shm s) - 1"
    from a(1) have cs: "in_cs (pc (players s i))" by (simp add: in_cs_def)
    from a(1) have "i \<in> at {L188} s" by (simp add: mem_at)
    with f4 have g: "1 \<le> goaliesFree (shm s)" by auto
    from cs_only_one[OF mi cs sub(2)] have "at {L188} s \<subseteq> {i}" .
    moreover from a(2) have "at {L188} ?s' = at {L188} s - {i}" by (simp add: at_upd)
    ultimately have e8: "at {L188} ?s' = {}" by blast
    from cs_excludes[OF mi cs sub(1)] a(1) have "at {L187} s = {}" by simp
    moreover from a(2) have "at {L187} ?s' = at {L187} s - {i}" by (simp add: at_upd)
    ultimately have e7: "at {L187} ?s' = {}" by simp
    from a g f1 e7 e8 show ?thesis by (simp add: free_inv_def)
  next
    assume a: "pc (players s i) = L217" "pc p' = L218"
      "playersFree sh' = playersFree (shm s) + 1" "goaliesFree sh' = goaliesFree (shm s)"
    from a(1) have cs: "in_cs (pc (players s i))" by (simp add: in_cs_def)
    from cs_excludes[OF mi cs sub(1)] a(1) have "at {L187} s = {}" by simp
    moreover from a(2) have "at {L187} ?s' = at {L187} s - {i}" by (simp add: at_upd)
    ultimately have e7: "at {L187} ?s' = {}" by simp
    from cs_excludes[OF mi cs sub(2)] a(1) have "at {L188} s = {}" by simp
    moreover from a(2) have "at {L188} ?s' = at {L188} s - {i}" by (simp add: at_upd)
    ultimately have e8: "at {L188} ?s' = {}" by simp
    from a f1 f2 e7 e8 show ?thesis by (simp add: free_inv_def)
  next
    assume a: "pc (players s i) \<noteq> L187" "pc (players s i) \<noteq> L188" "pc p' \<noteq> L187" "pc p' \<noteq> L188"
      "playersFree sh' = playersFree (shm s)" "goaliesFree sh' = goaliesFree (shm s)"
    from a(1,3) have e7: "at {L187} ?s' = at {L187} s" by (intro at_same) simp
    from a(2,4) have e8: "at {L188} ?s' = at {L188} s" by (intro at_same) simp
    from a(5,6) inv e7 e8 show ?thesis by (simp add: free_inv_def)
  qed
qed


subsection \<open>The handshake\<close>

lemma step_tok:
  assumes "player_step NTP fl p sh sm = Some (ev, p', sh', sm')"
  shows "(pc p = L193 \<and> pc p' = L197 \<and> sm' = sm(playersWaitTeam := sm playersWaitTeam + 1))
       \<or> (pc p = L197 \<and> pc p' \<in> {L193, L203} \<and> 0 < sm playerRegistered
            \<and> sm' = sm(playerRegistered := sm playerRegistered - 1))
       \<or> (pc p = L203 \<and> pc p' = L207 \<and> sm' = sm(goaliesWaitTeam := sm goaliesWaitTeam + 1))
       \<or> (pc p = L207 \<and> pc p' = L212 \<and> 0 < sm playerRegistered
            \<and> sm' = sm(playerRegistered := sm playerRegistered - 1))
       \<or> (pc p = L237 \<and> pc p' = L242 \<and> 0 < sm playersWaitTeam
            \<and> sm' = sm(playersWaitTeam := sm playersWaitTeam - 1))
       \<or> (pc p = L243 \<and> pc p' = L252 \<and> sm' = sm(playerRegistered := sm playerRegistered + 1))
       \<or> (sm' playersWaitTeam = sm playersWaitTeam \<and> sm' goaliesWaitTeam = sm goaliesWaitTeam
            \<and> sm' playerRegistered = sm playerRegistered
            \<and> (pc p' \<in> {L242, L243} \<longleftrightarrow> pc p \<in> {L242, L243})
            \<and> (pc p' = L197 \<longleftrightarrow> pc p = L197) \<and> (pc p' = L207 \<longleftrightarrow> pc p = L207))"
  using assms
  by (cases "pc p"; clarsimp simp: step_defs split: if_splits)

lemma tok_inv_player:
  assumes mi: "mut_inv s" and inv: "tok_inv s"
    and st: "player_step NTP fl (players s i) (shm s) (sems s) = Some (ev, p', sh', sm')"
  shows "tok_inv (s\<lparr>players := (players s)(i := p'), shm := sh', sems := sm'\<rparr>)"
proof -
  let ?s' = "s\<lparr>players := (players s)(i := p'), shm := sh', sems := sm'\<rparr>"
  let ?W = "at {L242, L243} s" and ?P = "at {L197} s" and ?G = "at {L207} s"
  from inv have t1: "sems s playersWaitTeam + sems s goaliesWaitTeam + sems s playerRegistered
       + peers_pending s \<le> 1"
    and t2: "\<And>a b. a \<in> ?W \<Longrightarrow> b \<in> ?W \<Longrightarrow> a = b"
    and t3: "?W \<noteq> {} \<Longrightarrow> sems s playersWaitTeam = 0 \<and> sems s goaliesWaitTeam = 0 \<and>
        sems s playerRegistered = 0 \<and> peers_pending s = 0"
    and t4: "0 < sems s playersWaitTeam \<or> ?W \<noteq> {} \<Longrightarrow> ?P \<noteq> {}"
    and t5: "0 < sems s goaliesWaitTeam \<or> 0 < peers_pending s \<Longrightarrow> ?G \<noteq> {}"
    and t6: "0 < sems s playerRegistered \<Longrightarrow> ?P \<noteq> {} \<or> ?G \<noteq> {}"
    by (simp_all add: tok_inv_def)
  have sub: "{L197} \<subseteq> Collect in_cs" "{L207} \<subseteq> Collect in_cs" by (simp_all add: in_cs_def)
  have quiet: "sems s playersWaitTeam = 0 \<and> sems s goaliesWaitTeam = 0 \<and>
        sems s playerRegistered = 0 \<and> peers_pending s = 0 \<and> ?W = {}"
    if "?P = {}" "?G = {}"
    using that t4 t5 t6 by (metis gr0I)
  from step_tok[OF st] show ?thesis
  proof (elim disjE conjE)
    assume a: "pc (players s i) = L193" "pc p' = L197"
      "sm' = (sems s)(playersWaitTeam := sems s playersWaitTeam + 1)"
    from a(1) have cs: "in_cs (pc (players s i))" by (simp add: in_cs_def)
    from cs_excludes[OF mi cs sub(1)] a(1) have eP: "?P = {}" by simp
    from cs_excludes[OF mi cs sub(2)] a(1) have eG: "?G = {}" by simp
    note q = quiet[OF eP eG]
    from a(2) have W': "at {L242, L243} ?s' = ?W - {i}" by (simp add: at_upd)
    from a(2) have P': "at {L197} ?s' = insert i ?P" by (simp add: at_upd)
    from a(2) have G': "at {L207} ?s' = ?G - {i}" by (simp add: at_upd)
    from q a(3) eG show ?thesis
      unfolding tok_inv_def W' P' G' by simp
  next
    assume a: "pc (players s i) = L197" "pc p' \<in> {L193, L203}"
      "0 < sems s playerRegistered"
      "sm' = (sems s)(playerRegistered := sems s playerRegistered - 1)"
    from a(3) t1 have z: "sems s playerRegistered = 1" "sems s playersWaitTeam = 0"
      "sems s goaliesWaitTeam = 0" "peers_pending s = 0" by simp_all
    from a(3) t3 have eW: "?W = {}" by fastforce
    from a(2) have W': "at {L242, L243} ?s' = ?W - {i}" by (auto simp: at_upd)
    from z eW a(4) show ?thesis
      unfolding tok_inv_def W' by simp
  next
    assume a: "pc (players s i) = L203" "pc p' = L207"
      "sm' = (sems s)(goaliesWaitTeam := sems s goaliesWaitTeam + 1)"
    from a(1) have cs: "in_cs (pc (players s i))" by (simp add: in_cs_def)
    from cs_excludes[OF mi cs sub(1)] a(1) have eP: "?P = {}" by simp
    from cs_excludes[OF mi cs sub(2)] a(1) have eG: "?G = {}" by simp
    note q = quiet[OF eP eG]
    from a(2) have W': "at {L242, L243} ?s' = ?W - {i}" by (simp add: at_upd)
    from a(2) have G': "at {L207} ?s' = insert i ?G" by (simp add: at_upd)
    from q a(3) show ?thesis
      unfolding tok_inv_def W' G' by simp
  next
    assume a: "pc (players s i) = L207" "pc p' = L212"
      "0 < sems s playerRegistered"
      "sm' = (sems s)(playerRegistered := sems s playerRegistered - 1)"
    from a(3) t1 have z: "sems s playerRegistered = 1" "sems s playersWaitTeam = 0"
      "sems s goaliesWaitTeam = 0" "peers_pending s = 0" by simp_all
    from a(3) t3 have eW: "?W = {}" by fastforce
    from a(2) have W': "at {L242, L243} ?s' = ?W - {i}" by (auto simp: at_upd)
    from z eW a(4) show ?thesis
      unfolding tok_inv_def W' by simp
  next
    assume a: "pc (players s i) = L237" "pc p' = L242"
      "0 < sems s playersWaitTeam"
      "sm' = (sems s)(playersWaitTeam := sems s playersWaitTeam - 1)"
    from a(3) t1 have z: "sems s playersWaitTeam = 1" "sems s playerRegistered = 0"
      "sems s goaliesWaitTeam = 0" "peers_pending s = 0" by simp_all
    from a(3) t3 have eW: "?W = {}" by fastforce
    from a(3) t4 have nP: "?P \<noteq> {}" by simp
    from a(2) have W': "at {L242, L243} ?s' = insert i ?W" by (simp add: at_upd)
    from a(1,2) have P': "at {L197} ?s' = ?P" by (intro at_same) simp
    from z eW nP a(4) show ?thesis
      unfolding tok_inv_def W' P' by simp
  next
    assume a: "pc (players s i) = L243" "pc p' = L252"
      "sm' = (sems s)(playerRegistered := sems s playerRegistered + 1)"
    from a(1) have iW: "i \<in> ?W" by (simp add: mem_at)
    with t3 have z: "sems s playersWaitTeam = 0" "sems s playerRegistered = 0"
      "sems s goaliesWaitTeam = 0" "peers_pending s = 0" by auto
    from iW t2 have "?W = {i}" by blast
    moreover from a(2) have "at {L242, L243} ?s' = ?W - {i}" by (simp add: at_upd)
    ultimately have W': "at {L242, L243} ?s' = {}" by simp
    from iW t4 have nP: "?P \<noteq> {}" by blast
    from a(1,2) have P': "at {L197} ?s' = ?P" by (intro at_same) simp
    from z nP a(3) show ?thesis
      unfolding tok_inv_def W' P' by simp
  next
    assume a: "sm' playersWaitTeam = sems s playersWaitTeam"
      "sm' goaliesWaitTeam = sems s goaliesWaitTeam"
      "sm' playerRegistered = sems s playerRegistered"
      "(pc p' \<in> {L242, L243}) = (pc (players s i) \<in> {L242, L243})"
      "(pc p' = L197) = (pc (players s i) = L197)" "(pc p' = L207) = (pc (players s i) = L207)"
    from a(4) have W': "at {L242, L243} ?s' = ?W" by (rule at_same)
    from a(5) have P': "at {L197} ?s' = ?P" by (intro at_same) simp
    from a(6) have G': "at {L207} ?s' = ?G" by (intro at_same) simp
    from inv a(1-3) show ?thesis
      unfolding tok_inv_def W' P' G' by simp
  qed
qed


subsection \<open>The peers, the initial state, and every reachable state\<close>

lemma at_other [simp]:
  "at S (s\<lparr>sems := x\<rparr>) = at S s"
  "at S (s\<lparr>peers_locked := y\<rparr>) = at S s"
  "at S (s\<lparr>peers_pending := y\<rparr>) = at S s"
  "at S (s\<lparr>shm := z\<rparr>) = at S s"
  by (simp_all add: at_def)

lemma ginv_player:
  assumes "ginv s"
    and "player_step NTP fl (players s i) (shm s) (sems s) = Some (ev, p', sh', sm')"
  shows "ginv (s\<lparr>players := (players s)(i := p'), shm := sh', sems := sm'\<rparr>)"
proof -
  from assms(1) have m: "mut_inv s" and f: "free_inv s" and t: "tok_inv s"
    by (simp_all add: ginv_def)
  from mut_inv_player[OF m assms(2)] free_inv_player[OF m f assms(2)]
    tok_inv_player[OF m t assms(2)]
  show ?thesis by (simp add: ginv_def)
qed

lemma mut_inv_lock:
  assumes "mut_inv s" and "sems s mutex \<noteq> 0"
  shows "mut_inv (s\<lparr>sems := (sems s)(mutex := sems s mutex - 1), peers_locked := peers_locked s + 1\<rparr>)"
proof -
  from assms have "at (Collect in_cs) s = {}" "sems s mutex = 1" "peers_locked s = 0"
    by (auto simp: mut_inv_def)
  then show ?thesis by (simp add: mut_inv_def)
qed

lemma mut_inv_unlock:
  assumes "mut_inv s" and "peers_locked s \<noteq> 0"
  shows "mut_inv (s\<lparr>sems := (sems s)(mutex := sems s mutex + 1), peers_locked := peers_locked s - 1\<rparr>)"
proof -
  from assms have "at (Collect in_cs) s = {}" "sems s mutex = 0" "peers_locked s = 1"
    by (auto simp: mut_inv_def)
  then show ?thesis by (simp add: mut_inv_def)
qed

lemma free_inv_incfree:
  assumes "free_inv s"
  shows "free_inv (s\<lparr>shm := (shm s)\<lparr>goaliesFree := goaliesFree (shm s) + 1\<rparr>\<rparr>)"
  using assms by (auto simp: free_inv_def)

lemma tok_inv_peer_down:
  assumes "tok_inv s" and "sems s x \<noteq> 0" and "x \<in> {goaliesWaitTeam, refereeWaitTeams, playing}"
  shows "tok_inv (s\<lparr>sems := (sems s)(x := sems s x - 1),
           peers_pending := peers_pending s + (if x = goaliesWaitTeam then 1 else 0)\<rparr>)"
proof (cases "x = goaliesWaitTeam")
  case True
  from assms(1) have t1: "sems s playersWaitTeam + sems s goaliesWaitTeam + sems s playerRegistered
       + peers_pending s \<le> 1"
    and t3: "at {L242, L243} s \<noteq> {} \<Longrightarrow> sems s goaliesWaitTeam = 0"
    and t5: "0 < sems s goaliesWaitTeam \<Longrightarrow> at {L207} s \<noteq> {}"
    by (simp_all add: tok_inv_def)
  from assms(2) True t1 have z: "sems s goaliesWaitTeam = 1" "sems s playersWaitTeam = 0"
    "sems s playerRegistered = 0" "peers_pending s = 0" by simp_all
  from z(1) t3 have "at {L242, L243} s = {}" by fastforce
  moreover from z(1) t5 have "at {L207} s \<noteq> {}" by simp
  ultimately show ?thesis using z True by (simp add: tok_inv_def)
next
  case False
  with assms(1,3) show ?thesis by (auto simp: tok_inv_def)
qed

lemma tok_inv_register:
  assumes "tok_inv s" and "peers_pending s \<noteq> 0"
  shows "tok_inv (s\<lparr>sems := (sems s)(playerRegistered := sems s playerRegistered + 1),
           peers_pending := peers_pending s - 1\<rparr>)"
proof -
  from assms(1) have t1: "sems s playersWaitTeam + sems s goaliesWaitTeam + sems s playerRegistered
       + peers_pending s \<le> 1"
    and t3: "at {L242, L243} s \<noteq> {} \<Longrightarrow> peers_pending s = 0"
    and t5: "0 < peers_pending s \<Longrightarrow> at {L207} s \<noteq> {}"
    by (simp_all add: tok_inv_def)
  from assms(2) t1 have z: "peers_pending s = 1" "sems s playersWaitTeam = 0"
    "sems s playerRegistered = 0" "sems s goaliesWaitTeam = 0" by simp_all
  from z(1) t3 have "at {L242, L243} s = {}" by fastforce
  moreover from z(1) t5 have "at {L207} s \<noteq> {}" by simp
  ultimately show ?thesis using z by (simp add: tok_inv_def)
qed

lemma ginv_step:
  assumes "ginv s" and "gstep NTP c s = Some (e, s')"
  shows "ginv s'"
proof (cases c)
  case (RunPlayer i fl)
  with assms(2) obtain ev p' sh' sm' where
    "player_step NTP fl (players s i) (shm s) (sems s) = Some (ev, p', sh', sm')"
    "s' = s\<lparr>players := (players s)(i := p'), shm := sh', sems := sm'\<rparr>"
    by (auto simp: gstep_def split: option.splits)
  with assms(1) show ?thesis using ginv_player by blast
next
  case PeerLock
  with assms(2) have n: "sems s mutex \<noteq> 0"
    and s': "s' = s\<lparr>sems := (sems s)(mutex := sems s mutex - 1), peers_locked := peers_locked s + 1\<rparr>"
    by (auto simp: gstep_def split: if_splits)
  from assms(1) have "mut_inv s" "free_inv s" "tok_inv s" by (simp_all add: ginv_def)
  with mut_inv_lock[OF _ n] show ?thesis
    unfolding s' ginv_def by (simp add: free_inv_def tok_inv_def)
next
  case PeerUnlock
  with assms(2) have n: "peers_locked s \<noteq> 0"
    and s': "s' = s\<lparr>sems := (sems s)(mutex := sems s mutex + 1), peers_locked := peers_locked s - 1\<rparr>"
    by (auto simp: gstep_def split: if_splits)
  from assms(1) have "mut_inv s" "free_inv s" "tok_inv s" by (simp_all add: ginv_def)
  with mut_inv_unlock[OF _ n] show ?thesis
    unfolding s' ginv_def by (simp add: free_inv_def tok_inv_def)
next
  case PeerIncFree
  with assms(2) have s': "s' = s\<lparr>shm := (shm s)\<lparr>goaliesFree := goaliesFree (shm s) + 1\<rparr>\<rparr>"
    by (auto simp: gstep_def split: if_splits)
  from assms(1) have "mut_inv s" "free_inv s" "tok_inv s" by (simp_all add: ginv_def)
  with free_inv_incfree show ?thesis
    unfolding s' ginv_def by (simp add: mut_inv_def tok_inv_def)
next
  case (PeerDown x)
  with assms(2) have n: "sems s x \<noteq> 0" "x \<in> {goaliesWaitTeam, refereeWaitTeams, playing}"
    and s': "s' = s\<lparr>sems := (sems s)(x := sems s x - 1),
           peers_pending := peers_pending s + (if x = goaliesWaitTeam then 1 else 0)\<rparr>"
    by (auto simp: gstep_def split: if_splits)
  from assms(1) have "mut_inv s" "free_inv s" "tok_inv s" by (simp_all add: ginv_def)
  with tok_inv_peer_down[OF _ n] n(2) show ?thesis
    unfolding s' ginv_def by (auto simp: mut_inv_def free_inv_def)
next
  case (PeerUp x)
  with assms(2) have n: "x \<in> {playersWaitReferee, playersWaitEnd}"
    and s': "s' = s\<lparr>sems := (sems s)(x := sems s x + 1)\<rparr>"
    by (auto simp: gstep_def split: if_splits)
  from assms(1) n show ?thesis
    unfolding s' ginv_def by (auto simp: mut_inv_def free_inv_def tok_inv_def)
next
  case PeerRegister
  with assms(2) have n: "peers_pending s \<noteq> 0"
    and s': "s' = s\<lparr>sems := (sems s)(playerRegistered := sems s playerRegistered + 1),
           peers_pending := peers_pending s - 1\<rparr>"
    by (auto simp: gstep_def split: if_splits)
  from assms(1) have "mut_inv s" "free_inv s" "tok_inv s" by (simp_all add: ginv_def)
  with tok_inv_register[OF _ n] show ?thesis
    unfolding s' ginv_def by (simp add: mut_inv_def free_inv_def)
qed

lemma ginv_initial:
  assumes "initial s"
  shows "ginv s"
proof -
  have e: "at S s = {}" if "L142 \<notin> S" for S
    using assms that by (auto simp: at_def initial_def)
  have "at (Collect in_cs) s = {}" "at {L187} s = {}" "at {L188} s = {}"
    "at {L242, L243} s = {}" "at {L197} s = {}" "at {L207} s = {}"
    by (rule e, simp add: in_cs_def)+
  with assms show ?thesis
    by (simp add: ginv_def mut_inv_def free_inv_def tok_inv_def initial_def)
qed

lemma ginv_grun:
  "grun NTP s0 tr s \<Longrightarrow> ginv s0 \<Longrightarrow> ginv s"
  by (induction rule: grun.induct) (auto intro: ginv_step)

lemma reach_ginv:
  "reach NTP s \<Longrightarrow> ginv s"
  unfolding reach_def using ginv_grun ginv_initial by blast



lemma schedule_grun:
  "schedule NTP cs (tr0, s) = Some (tr, s') \<Longrightarrow> grun NTP s0 tr0 s \<Longrightarrow> grun NTP s0 tr s'"
proof (induction cs arbitrary: tr0 s)
  case Nil
  then show ?case by simp
next
  case (Cons c cs)
  from Cons.prems(1) obtain e s1 where st: "gstep NTP c s = Some (e, s1)"
    and rest: "schedule NTP cs (tr0 @ [e], s1) = Some (tr, s')"
    by (auto split: option.splits)
  from Cons.prems(2) st have "grun NTP s0 (tr0 @ [e]) s1" by (rule grun_step)
  with rest show ?case by (rule Cons.IH)
qed



subsection \<open>The team identifier during a handshake\<close>






subsection \<open>Counting arrivals and claimed teams\<close>







subsection \<open>What a step does to the shared region and to the semaphores\<close>

lemma step_SetStat:
  assumes "player_step NTP fl p sh sm = Some (SetStat i x, p', sh', sm')"
  shows "i = id_p p \<and> sh' = set_playerStat sh i x \<and> playerStat (st sh') i = x \<and> sm' = sm"
  using assms
  by (cases "pc p"; clarsimp simp: step_defs split: if_splits)



lemma step_IncArrived:
  assumes "player_step NTP fl p sh sm = Some (IncArrived v, p', sh', sm')"
  shows "v = playersArrived sh + 1 \<and> sh' = sh\<lparr>playersArrived := v\<rparr> \<and> sm' = sm
     \<and> pc p' = (if 8 < v then L183 else L186)"
  using assms
  by (cases "pc p"; clarsimp simp: step_defs split: if_splits)

lemma step_TestFree:
  assumes "player_step NTP fl p sh sm = Some (TestFree f g, p', sh', sm')"
  shows "f = playersFree sh \<and> g = goaliesFree sh \<and> sh' = sh \<and> sm' = sm
     \<and> pc p' = (if 3 \<le> f \<and> g \<noteq> 0 then L187 else L217)"
  using assms
  by (cases "pc p"; clarsimp simp: step_defs split: if_splits)

lemma step_SaveState:
  assumes "player_step NTP fl p sh sm = Some (SaveState, p', sh', sm')"
  shows "sh' = sh \<and> sm' = sm"
  using assms
  by (cases "pc p"; clarsimp simp: step_defs split: if_splits)

lemma step_Reserve:
  assumes "player_step NTP fl p sh sm = Some (ev, p', sh', sm')"
  shows "(ev = DecPlayersFree \<longrightarrow> pc p = L187 \<and> pc p' = L188 \<and> sm' = sm
            \<and> sh' = sh\<lparr>playersFree := playersFree sh - 3\<rparr>)
       \<and> (ev = DecGoaliesFree \<longrightarrow> pc p = L188 \<and> pc p' = L189 \<and> sm' = sm
            \<and> sh' = sh\<lparr>goaliesFree := goaliesFree sh - 1\<rparr>)"
  using assms
  by (cases "pc p"; clarsimp simp: step_defs split: if_splits)

lemma step_blocked:
  "player_step NTP False p sh sm = None \<longleftrightarrow>
     exited p \<noteq> None \<or> (\<exists>x. waits_on (pc p) = Some x \<and> sm x = 0)"
  by (cases "pc p"; simp add: step_defs waits_on_def)

lemma step_Exit:
  assumes "player_step NTP fl p sh sm = Some (ev, p', sh', sm')"
  shows "(exited p' = None \<and> (\<forall>x. ev \<noteq> SemFail x) \<and> (\<forall>e. ev \<noteq> Exit e))
       \<or> (\<exists>x. ev = SemFail x \<and> fl \<and> exited p' = Some EXIT_FAILURE \<and> pc p' = pc p)
       \<or> (pc p = L125 \<and> pc p' = L125 \<and> (\<exists>e. ev = Exit e \<and> exited p' = Some e))"
  using assms
  by (cases "pc p"; clarsimp simp: step_defs split: if_splits)

lemma arrs_mem: "IncArrived v \<in> set tr \<longleftrightarrow> v \<in> set (arrs tr)"
  by (auto simp: arrs_def split: event.splits)

lemma late_never_blocks:
  assumes "pexec NTP p0 tr p" and "pc p0 = L177" and "exited p = None"
    and "IncArrived v \<in> set tr" and "8 < v"
  shows "player_step NTP False p sh sm \<noteq> None"
proof -
  from late_inv_pexec[OF assms(1)] assms(2) have li: "late_inv tr p" by simp
  from assms(4) have m: "v \<in> set (arrs tr)" by (simp add: arrs_mem)
  have "waits_on (pc p) = None"
    using li m assms(5)
    by (cases "pc p"; cases "arrs tr";
        simp add: late_inv_def ontime_def toolate_def Let_def waits_on_def)
  with assms(3) show ?thesis by (simp add: step_blocked)
qed

lemma late_call_run:
  assumes "pc p = L177" and "exited p = None" and "0 < sm mutex" and "8 \<le> playersArrived sh"
  shows "solo NTP 6 ([], p, sh, sm) =
     ([SemDown mutex, IncArrived (playersArrived sh + 1), SetStat (id_p p) LATE, SaveState,
       SemUp mutex, Return 0],
      p\<lparr>pc := L125, ret := 0, player_type := 0, team := 0\<rparr>,
      set_playerStat (sh\<lparr>playersArrived := playersArrived sh + 1\<rparr>) (id_p p) LATE,
      sm)"
  using assms by (simp add: eval_nat_numeral step_defs)

lemma step_id:
  assumes "player_step NTP fl p sh sm = Some (ev, p', sh', sm')"
  shows "id_p p' = id_p p"
  using assms
  by (cases "pc p"; clarsimp simp: step_defs split: if_splits)

lemma pexec_id:
  assumes "pexec NTP p0 tr p"
  shows "id_p p = id_p p0"
  using assms
proof (induction rule: pexec.induct)
  case pexec_init
  then show ?case by simp
next
  case (pexec_step tr p fl sh sm ev p' sh' sm')
  then show ?case using step_id by metis
qed

section \<open>The properties of the specification\<close>

lemmas eval_defs = step_defs at_call_def player0_def shm_of_def sems0_def sems_reg_def
  EXIT_SUCCESS_def EXIT_FAILURE_def

lemmas run_defs = gstep_def steps_def goalie_arrives_def goalie_joins_def system0_def
  player0_def shm0_def sems0_def EXIT_SUCCESS_def EXIT_FAILURE_def

lemma run_facts:
  assumes "schedule 4 cs ([], system0) = Some (tr, s)"
  shows "run_ok cs" and "run_trace cs = tr" and "run_state cs = s"
  using assms by (simp_all add: run_ok_def run_trace_def run_state_def)

lemma solo_pexec_fst:
  "pexec NTP p (fst (solo NTP k ([], p, sh, sm))) (fst (snd (solo NTP k ([], p, sh, sm))))"
proof -
  obtain tr p' sh' sm' where r: "solo NTP k ([], p, sh, sm) = (tr, p', sh', sm')"
    by (cases "solo NTP k ([], p, sh, sm)") auto
  from solo_pexec[OF r pexec_init] r show ?thesis by simp
qed

text \<open>
  C2.  For every call of playerConstituteTeam (a process at line 177): if the value of
  \<open>playersArrived\<close> after the increment of line 182 is above 8, then the call cannot
  block any more, and when it has reached its return statement (line 252) its events
  are exactly: the mutex is taken, the counter is incremented, the status of the player
  is set to LATE, the state is saved, the mutex is released.  So no semaphore other than
  the mutex is signalled or waited on, and the statement executed next returns 0 (and
  \<^verbatim>\<open>main\<close> goes on at line 125).  The increment and the new status are written to the
  shared region: run from a state in which the mutex is free and 8 or more players have
  arrived, the call ends after six steps with the value 0, \<open>playersArrived\<close> one higher,
  the entry of the player in \<open>playerStat\<close> equal to LATE and the semaphores as before.
\<close>

theorem late_arrival_returns_zero:
  "(\<forall>p0 tr p v. pexec NTP p0 tr p \<and> pc p0 = L177 \<and> exited p0 = None \<and>
        pc p = L252 \<and> exited p = None \<and> IncArrived v \<in> set tr \<and> 8 < v \<longrightarrow>
      tr = [SemDown mutex, IncArrived v, SetStat (id_p p0) LATE, SaveState, SemUp mutex]
      \<and> (\<forall>c. c \<noteq> mutex \<longrightarrow> SemUp c \<notin> set tr \<and> SemDown c \<notin> set tr)
      \<and> ret p = 0
      \<and> (\<forall>fl sh sm. player_step NTP fl p sh sm
            = Some (Return 0, p\<lparr>team := 0, pc := L125\<rparr>, sh, sm)))
   \<and> (\<forall>p0 tr p v sh sm. pexec NTP p0 tr p \<and> pc p0 = L177 \<and> exited p = None \<and>
        IncArrived v \<in> set tr \<and> 8 < v \<longrightarrow> player_step NTP False p sh sm \<noteq> None)
   \<and> (\<forall>fl p sh sm v p' sh' sm'.
        player_step NTP fl p sh sm = Some (IncArrived v, p', sh', sm') \<longrightarrow>
        v = playersArrived sh + 1 \<and> sh' = sh\<lparr>playersArrived := v\<rparr> \<and> sm' = sm
        \<and> pc p' = (if 8 < v then L183 else L186))
   \<and> (\<forall>fl p sh sm i x p' sh' sm'.
        player_step NTP fl p sh sm = Some (SetStat i x, p', sh', sm') \<longrightarrow>
        i = id_p p \<and> sh' = set_playerStat sh i x \<and> playerStat (st sh') i = x \<and> sm' = sm)
   \<and> (\<forall>p sh sm. pc p = L177 \<and> exited p = None \<and> 0 < sm mutex \<and> 8 \<le> playersArrived sh \<longrightarrow>
        solo NTP 6 ([], p, sh, sm) =
          ([SemDown mutex, IncArrived (playersArrived sh + 1), SetStat (id_p p) LATE,
            SaveState, SemUp mutex, Return 0],
           p\<lparr>pc := L125, ret := 0, player_type := 0, team := 0\<rparr>,
           set_playerStat (sh\<lparr>playersArrived := playersArrived sh + 1\<rparr>) (id_p p) LATE,
           sm))"
proof -
  have A: "tr = [SemDown mutex, IncArrived v, SetStat (id_p p0) LATE, SaveState, SemUp mutex]
      \<and> (\<forall>c. c \<noteq> mutex \<longrightarrow> SemUp c \<notin> set tr \<and> SemDown c \<notin> set tr)
      \<and> ret p = 0
      \<and> (\<forall>fl sh sm. player_step NTP fl p sh sm
            = Some (Return 0, p\<lparr>team := 0, pc := L125\<rparr>, sh, sm))"
    if "pexec NTP p0 tr p \<and> pc p0 = L177 \<and> exited p0 = None \<and>
        pc p = L252 \<and> exited p = None \<and> IncArrived v \<in> set tr \<and> 8 < v" for p0 tr p v
  proof -
    from that have h: "pexec NTP p0 tr p" "pc p0 = L177" "exited p0 = None"
      "pc p = L252" "exited p = None" "IncArrived v \<in> set tr" "8 < v" by simp_all
    from late_shape[OF h]
    have tr: "tr = [SemDown mutex, IncArrived v, SetStat (id_p p0) LATE, SaveState, SemUp mutex]"
      and r: "ret p = 0" by simp_all
    from h(4,5) r
    have "player_step NTP fl p sh sm = Some (Return 0, p\<lparr>team := 0, pc := L125\<rparr>, sh, sm)"
      for fl sh sm by (simp add: player_step_def)
    with tr r show ?thesis by simp
  qed
  have B: "player_step NTP False p sh sm \<noteq> None"
    if "pexec NTP p0 tr p \<and> pc p0 = L177 \<and> exited p = None \<and>
        IncArrived v \<in> set tr \<and> 8 < v" for p0 tr p v sh sm
  proof -
    from that have h: "pexec NTP p0 tr p" "pc p0 = L177" "exited p = None"
      "IncArrived v \<in> set tr" "8 < v" by simp_all
    from late_never_blocks[OF h] show ?thesis .
  qed
  have C: "v = playersArrived sh + 1 \<and> sh' = sh\<lparr>playersArrived := v\<rparr> \<and> sm' = sm
        \<and> pc p' = (if 8 < v then L183 else L186)"
    if "player_step NTP fl p sh sm = Some (IncArrived v, p', sh', sm')"
    for fl p sh sm v p' sh' sm'
    using step_IncArrived[OF that] .
  have D: "i = id_p p \<and> sh' = set_playerStat sh i x \<and> playerStat (st sh') i = x \<and> sm' = sm"
    if "player_step NTP fl p sh sm = Some (SetStat i x, p', sh', sm')"
    for fl p sh sm i x p' sh' sm'
    using step_SetStat[OF that] .
  have E: "solo NTP 6 ([], p, sh, sm) =
          ([SemDown mutex, IncArrived (playersArrived sh + 1), SetStat (id_p p) LATE,
            SaveState, SemUp mutex, Return 0],
           p\<lparr>pc := L125, ret := 0, player_type := 0, team := 0\<rparr>,
           set_playerStat (sh\<lparr>playersArrived := playersArrived sh + 1\<rparr>) (id_p p) LATE,
           sm)"
    if "pc p = L177 \<and> exited p = None \<and> 0 < sm mutex \<and> 8 \<le> playersArrived sh" for p sh sm
  proof -
    from that have h: "pc p = L177" "exited p = None" "0 < sm mutex" "8 \<le> playersArrived sh"
      by simp_all
    from late_call_run[of p sm sh NTP, OF h] show ?thesis .
  qed
  show ?thesis
    apply (intro conjI allI impI)
    using A apply blast
    using A apply blast
    using A apply blast
    using A apply blast
    using A apply blast
    using B apply blast
    using C apply blast
    using C apply blast
    using C apply blast
    using C apply blast
    using D apply blast
    using D apply blast
    using D apply blast
    using D apply blast
    using E apply blast
    done
qed

theorem late_arrival_returns_zero_witness:
  "fst (solo 4 5 ([], at_call 8, shm_of 8 3 1 1, sems0))
     = [SemDown mutex, IncArrived 9, SetStat 8 LATE, SaveState, SemUp mutex]
   \<and> ret (fst (snd (solo 4 5 ([], at_call 8, shm_of 8 3 1 1, sems0)))) = 0
   \<and> fst (solo 4 6 ([], at_call 8, shm_of 8 3 1 1, sems0))
     = [SemDown mutex, IncArrived 9, SetStat 8 LATE, SaveState, SemUp mutex, Return 0]
   \<and> playerStat (st (fst (snd (snd (solo 4 6 ([], at_call 8, shm_of 8 3 1 1, sems0)))))) 8 = LATE
   \<and> playersArrived (fst (snd (snd (solo 4 6 ([], at_call 8, shm_of 8 3 1 1, sems0))))) = 9
   \<and> snd (snd (snd (solo 4 6 ([], at_call 8, shm_of 8 3 1 1, sems0)))) = sems0"
proof -
  let ?r = "solo 4 5 ([], at_call 8, shm_of 8 3 1 1, sems0)"
  have ex: "pexec 4 (at_call 8) (fst ?r) (fst (snd ?r))" by (rule solo_pexec_fst)
  have a: "pc (at_call 8) = L177" "exited (at_call 8) = None" "id_p (at_call 8) = 8"
    by (simp_all add: eval_defs)
  have b: "pc (fst (snd ?r)) = L252" "exited (fst (snd ?r)) = None"
    "IncArrived 9 \<in> set (fst ?r)"
    by (simp_all add: eval_defs eval_nat_numeral)
  have prem: "pexec 4 (at_call 8) (fst ?r) (fst (snd ?r)) \<and> pc (at_call 8) = L177 \<and>
      exited (at_call 8) = None \<and> pc (fst (snd ?r)) = L252 \<and> exited (fst (snd ?r)) = None \<and>
      IncArrived 9 \<in> set (fst ?r) \<and> (8::int) < 9"
    using ex a b by simp
  have prem2: "pc (at_call 8) = L177 \<and> exited (at_call 8) = None \<and> 0 < sems0 mutex \<and>
      8 \<le> playersArrived (shm_of 8 3 1 1)"
    by (simp add: eval_defs)
  note t = late_arrival_returns_zero[of 4]
  from t[THEN conjunct1, rule_format, OF prem] a(3)
  have one: "fst ?r = [SemDown mutex, IncArrived 9, SetStat 8 LATE, SaveState, SemUp mutex]"
    "ret (fst (snd ?r)) = 0" by simp_all
  from t[THEN conjunct2, THEN conjunct2, THEN conjunct2, THEN conjunct2,
      THEN spec[of _ "at_call 8"], THEN spec[of _ "shm_of 8 3 1 1"], THEN spec[of _ sems0],
      THEN mp, OF prem2]
  have two: "solo 4 6 ([], at_call 8, shm_of 8 3 1 1, sems0) =
          ([SemDown mutex, IncArrived (playersArrived (shm_of 8 3 1 1) + 1),
            SetStat (id_p (at_call 8)) LATE, SaveState, SemUp mutex, Return 0],
           (at_call 8)\<lparr>pc := L125, ret := 0, player_type := 0, team := 0\<rparr>,
           set_playerStat ((shm_of 8 3 1 1)\<lparr>playersArrived := playersArrived (shm_of 8 3 1 1) + 1\<rparr>)
             (id_p (at_call 8)) LATE,
           sems0)" .
  show ?thesis
    unfolding two using one a(3)
    by (simp add: shm_of_def set_playerStat_def)
qed

lemma step_ReadTeam:
  assumes "player_step NTP fl p sh sm = Some (ReadTeam v, p', sh', sm')"
  shows "pc p = L242 \<and> v = teamId sh \<and> sh' = sh \<and> sm' = sm \<and> p' = p\<lparr>ret := teamId sh, pc := L243\<rparr>"
  using assms
  by (cases "pc p"; clarsimp simp: step_defs split: if_splits)

lemma step_wait_registered:
  assumes "player_step NTP fl p sh sm = Some (SemDown playerRegistered, p', sh', sm')"
  shows "pc p = L197 \<or> pc p = L207"
  using assms
  by (cases "pc p"; clarsimp simp: step_defs split: if_splits)

text \<open>
  C4 (amended).  In every execution of a player from the start of \<^verbatim>\<open>arrive\<close>, a wait on
  a semaphore other than the mutex happens while the player holds the mutex exactly when
  it is a wait on \<open>playerRegistered\<close>, and those are the leader's waits of lines 197 and
  207, inside the critical region of playerConstituteTeam.  The other waits (on
  \<open>playersWaitTeam\<close>, \<open>playersWaitReferee\<close> and \<open>playersWaitEnd\<close>) happen after the
  mutex has been released.
\<close>

theorem waits_and_mutex:
  assumes "pexec NTP p0 tr p" and "pc p0 = L142"
    and "player_step NTP fl p sh sm = Some (SemDown c, p', sh', sm')" and "c \<noteq> mutex"
  shows "(holds_mutex tr \<longleftrightarrow> c = playerRegistered)
     \<and> (c = playerRegistered \<longrightarrow> pc p = L197 \<or> pc p = L207)"
proof -
  from assms(2) have n: "\<not> in_cs (pc p0)" by (simp add: in_cs_def)
  note h = holds_mutex_iff[OF assms(1) n]
  have a: "c = playerRegistered \<and> (pc p = L197 \<or> pc p = L207)" if "holds_mutex tr"
    using step_wait_in_cs[OF assms(3,4)] that h by simp
  have b: "pc p = L197 \<or> pc p = L207" if "c = playerRegistered"
    using step_wait_registered assms(3) that by blast
  have c: "holds_mutex tr" if "c = playerRegistered"
    using b[OF that] h by (auto simp: in_cs_def)
  from a b c show ?thesis by blast
qed

theorem waits_and_mutex_witness:
  "holds_mutex (fst (solo 4 13 ([], player0 3, shm_of 3 3 1 1, sems_reg)))
   \<and> pc (fst (snd (solo 4 13 ([], player0 3, shm_of 3 3 1 1, sems_reg)))) = L197"
proof -
  let ?r = "solo 4 13 ([], player0 3, shm_of 3 3 1 1, sems_reg)"
  let ?p = "fst (snd ?r)"
  have ex: "pexec 4 (player0 3) (fst ?r) ?p" by (rule solo_pexec_fst)
  have a: "pc (player0 3) = L142" by (simp add: eval_defs)
  have b: "pc ?p = L197" "exited ?p = None" by (simp_all add: eval_defs eval_nat_numeral)
  then have st: "player_step 4 False ?p (shm_of 3 3 1 1) sems_reg
      = Some (SemDown playerRegistered, ?p\<lparr>count_p := count_p ?p + 1,
                pc := (if count_p ?p + 1 \<noteq> 4 - 1 then L193 else L203)\<rparr>,
              shm_of 3 3 1 1, sems_reg(playerRegistered := sems_reg playerRegistered - 1))"
    by (simp add: player_step_def semDown_def sems_reg_def)
  from waits_and_mutex[OF ex a st] b show ?thesis by simp
qed

theorem leader_waits_holding_mutex_counterexample:
  "run_ok sched_wait
   \<and> last (run_trace sched_wait) = PlayerEv 3 (SemDown playerRegistered)
   \<and> holds_mutex (proj 3 (butlast (run_trace sched_wait)))"
proof -
  have "case schedule 4 sched_wait ([], system0) of
     None \<Rightarrow> False
   | Some (tr, s) \<Rightarrow> last tr = PlayerEv 3 (SemDown playerRegistered)
       \<and> holds_mutex (proj 3 (butlast tr))"
    by (simp add: sched_wait_def sched_woken_def sched_call_def run_defs step_defs
        eval_nat_numeral holds_mutex_def locks_def unlocks_def)
  then obtain tr s where run: "schedule 4 sched_wait ([], system0) = Some (tr, s)"
    and f: "last tr = PlayerEv 3 (SemDown playerRegistered)" "holds_mutex (proj 3 (butlast tr))"
    by (auto split: option.splits)
  from run_facts[OF run] f show ?thesis by simp
qed

text \<open>
  C5 (amended).  In every execution of a player from the start of \<^verbatim>\<open>arrive\<close>, an access
  to the counters or to the status array happens outside the critical region exactly
  when it is the follower's read of \<open>teamId\<close> at line 242; that read comes right after the
  follower's wait on \<open>playersWaitTeam\<close> (and line 243, the signal on \<open>playerRegistered\<close>,
  follows).  Every other read and write happens while the player holds the mutex.
\<close>

theorem shared_accesses_and_mutex:
  assumes "pexec NTP p0 tr p" and "pc p0 = L142"
    and "player_step NTP fl p sh sm = Some (ev, p', sh', sm')" and "touches_shared ev"
  shows "(\<not> holds_mutex tr \<longleftrightarrow> (\<exists>v. ev = ReadTeam v))
     \<and> ((\<exists>v. ev = ReadTeam v) \<longrightarrow>
           pc p = L242 \<and> ev = ReadTeam (teamId sh) \<and> tr \<noteq> [] \<and>
           last tr = SemDown playersWaitTeam \<and> pc p' = L243)"
proof -
  from assms(2) have n: "\<not> in_cs (pc p0)" by (simp add: in_cs_def)
  note h = holds_mutex_iff[OF assms(1) n]
  from assms(3) have ne: "exited p = None" by (rule step_not_exited)
  have a: "pc p = L242 \<and> ev = ReadTeam (teamId sh)" if "\<not> holds_mutex tr"
    using step_shared_outside_cs[OF assms(3,4)] that h by simp
  have b: "pc p = L242 \<and> ev = ReadTeam (teamId sh) \<and> pc p' = L243" if "ev = ReadTeam v" for v
    using step_ReadTeam[of NTP fl p sh sm v p' sh' sm'] assms(3) that by simp
  have c: "\<not> holds_mutex tr" if "ev = ReadTeam v" for v
    using b[OF that] h by (simp add: in_cs_def)
  have d: "tr \<noteq> [] \<and> last tr = SemDown playersWaitTeam" if "pc p = L242"
    using at_L242_last[OF assms(1) that ne] assms(2) by simp
  from a b c d show ?thesis by blast
qed

theorem shared_accesses_and_mutex_witness:
  "\<not> holds_mutex (fst (solo 4 13 ([], player0 0, shm_of 0 0 0 1, sems_call)))
   \<and> last (fst (solo 4 13 ([], player0 0, shm_of 0 0 0 1, sems_call))) = SemDown playersWaitTeam"
proof -
  let ?r = "solo 4 13 ([], player0 0, shm_of 0 0 0 1, sems_call)"
  let ?p = "fst (snd ?r)"
  have ex: "pexec 4 (player0 0) (fst ?r) ?p" by (rule solo_pexec_fst)
  have a: "pc (player0 0) = L142" by (simp add: eval_defs)
  have b: "pc ?p = L242" "exited ?p = None"
    by (simp_all add: eval_defs sems_call_def eval_nat_numeral)
  then have st: "player_step 4 False ?p (shm_of 0 0 0 1) sems_call
      = Some (ReadTeam (teamId (shm_of 0 0 0 1)), ?p\<lparr>ret := teamId (shm_of 0 0 0 1), pc := L243\<rparr>,
              shm_of 0 0 0 1, sems_call)"
    by (simp add: player_step_def)
  have t: "touches_shared (ReadTeam (teamId (shm_of 0 0 0 1)))" by (simp add: touches_shared_def)
  from shared_accesses_and_mutex[OF ex a st t] show ?thesis by simp
qed

theorem follower_reads_outside_mutex_counterexample:
  "run_ok sched_read
   \<and> last (run_trace sched_read) = PlayerEv 0 (ReadTeam 1) \<and> touches_shared (ReadTeam 1)
   \<and> \<not> holds_mutex (proj 0 (butlast (run_trace sched_read)))"
proof -
  have "case schedule 4 sched_read ([], system0) of
     None \<Rightarrow> False
   | Some (tr, s) \<Rightarrow> last tr = PlayerEv 0 (ReadTeam 1) \<and> touches_shared (ReadTeam 1)
       \<and> \<not> holds_mutex (proj 0 (butlast tr))"
    by (simp add: sched_read_def sched_woken_def sched_call_def run_defs step_defs
        eval_nat_numeral holds_mutex_def locks_def unlocks_def touches_shared_def)
  then obtain tr s where run: "schedule 4 sched_read ([], system0) = Some (tr, s)"
    and f: "last tr = PlayerEv 0 (ReadTeam 1)" "touches_shared (ReadTeam 1)"
      "\<not> holds_mutex (proj 0 (butlast tr))"
    by (auto split: option.splits)
  from run_facts[OF run] f show ?thesis by simp
qed

lemma step_ClaimTeam:
  assumes "player_step NTP fl p sh sm = Some (ClaimTeam x, p', sh', sm')"
  shows "pc p = L212 \<and> x = teamId sh \<and> ret p' = teamId sh \<and> teamId sh' = teamId sh + 1"
  using assms
  by (cases "pc p"; clarsimp simp: step_defs split: if_splits)

lemma step_Return:
  assumes "player_step NTP fl p sh sm = Some (Return r, p', sh', sm')"
  shows "pc p = L252 \<and> r = ret p \<and> (if r = 0 then pc p' = L125 else pc p' = L266)"
  using assms
  by (cases "pc p"; clarsimp simp: step_defs split: if_splits)

lemma match_inv_step:
  assumes "match_inv tr p" and "player_step NTP fl p sh sm = Some (ev, p', sh', sm')"
  shows "match_inv (tr @ [ev]) p'"
  using assms
  by (cases "pc p"; clarsimp simp: step_defs match_inv_def in_match_def match_done_def
      match_events_def split: if_splits)

lemma match_inv_pexec:
  assumes "pexec NTP p0 tr p" and "\<not> returned (pc p0)"
  shows "match_inv tr p"
  using assms
proof (induction rule: pexec.induct)
  case pexec_init
  then show ?case by (cases "pc p0"; simp add: match_inv_def returned_def in_match_def)
next
  case (pexec_step tr p fl sh sm ev p' sh' sm')
  then show ?case using match_inv_step by blast
qed

lemma exit_pexec:
  assumes "pexec NTP p0 tr p" and "exited p0 = None" and "exited p \<noteq> None"
  shows "tr \<noteq> [] \<and> ((\<exists>x. last tr = SemFail x \<and> exited p = Some EXIT_FAILURE)
     \<or> (pc p = L125 \<and> (\<exists>e. last tr = Exit e \<and> exited p = Some e)))"
  using assms
proof (induction rule: pexec.induct)
  case pexec_init
  then show ?case by simp
next
  case (pexec_step tr p fl sh sm ev p' sh' sm')
  from step_Exit[OF pexec_step.hyps(2)] pexec_step.prems(2)
  show ?case by auto
qed

lemma match_run:
  assumes "pc q = L252" and "exited q = None" and "ret q \<noteq> 0"
    and "0 < sm mutex" and "0 < sm playersWaitReferee" and "0 < sm playersWaitEnd"
  shows "solo NTP 13 ([], q, sh, sm) =
     (Return (ret q) # match_events (id_p q) (ret q) @ [Exit EXIT_SUCCESS],
      q\<lparr>pc := L125, exited := Some EXIT_SUCCESS, team := ret q\<rparr>,
      set_playerStat sh (id_p q) (if ret q = 1 then PLAYING_1 else PLAYING_2),
      sm(playersWaitReferee := sm playersWaitReferee - 1, playing := sm playing + 1,
         playersWaitEnd := sm playersWaitEnd - 1))"
  using assms
  by (auto simp add: eval_nat_numeral step_defs match_events_def fun_eq_iff)

lemma skip_run:
  assumes "pc q = L252" and "exited q = None" and "ret q = 0"
  shows "solo NTP 2 ([], q, sh, sm) =
     ([Return 0, Exit EXIT_SUCCESS],
      q\<lparr>pc := L125, exited := Some EXIT_SUCCESS, team := 0\<rparr>, sh, sm)"
  using assms by (simp add: eval_nat_numeral step_defs)

text \<open>
  C10.  In every execution of a player (from the start of \<^verbatim>\<open>arrive\<close>, or from the call
  of playerConstituteTeam): the player is inside waitReferee or playUntilEnd only after
  a return value other than 0; after the return value 0 it is at line 125 and has done
  nothing of the match; after a return value other than 0 it is inside the match or has
  played it until the end.  A leader returns the value it claimed, which is the value of
  \<open>teamId\<close> before the increment.  Hence a leader that claims 0 never enters the match,
  exactly as a player marked LATE.
  After a return value \<open>r\<close> other than 0 the events of the process are, in this order,
  those of waitReferee and playUntilEnd for team \<open>r\<close>, as far as the process has come,
  and all of them once it is at line 125.  A process ends only by a failed semaphore
  operation or at line 125, and it stops only where it waits on a semaphore that is 0.
  Run alone with the semaphores available, a process at the return statement with a
  value other than 0 goes through the whole match (its status ends as PLAYING_1 or
  PLAYING_2, \<open>playing\<close> is signalled once) and exits with success; with the value 0 it
  exits at once, the shared region and the semaphores unchanged.
\<close>

theorem zero_team_skips_match:
  assumes "pexec NTP p0 tr p" and "pc p0 = L142 \<or> pc p0 = L177"
  shows "(in_match (pc p) \<longrightarrow> (\<exists>r. r \<noteq> 0 \<and> rets tr = [r]))
     \<and> (rets tr = [0] \<longrightarrow> pc p = L125 \<and> filter match_event tr = [])
     \<and> (\<forall>r. rets tr = [r] \<and> r \<noteq> 0 \<longrightarrow>
           in_match (pc p) \<or> (pc p = L125 \<and> SemDown playersWaitEnd \<in> set tr))
     \<and> (\<forall>x r. claimed tr = [x] \<and> rets tr = [r] \<longrightarrow> r = x)
     \<and> (claimed tr = [0] \<longrightarrow> \<not> in_match (pc p) \<and> filter match_event tr = [])
     \<and> (lates tr \<noteq> [] \<longrightarrow> \<not> in_match (pc p) \<and> filter match_event tr = [])
     \<and> (\<forall>fl q sh sm x q' sh' sm'.
           player_step NTP fl q sh sm = Some (ClaimTeam x, q', sh', sm') \<longrightarrow>
           x = teamId sh \<and> ret q' = teamId sh \<and> teamId sh' = teamId sh + 1)
     \<and> (\<forall>r. rets tr = [r] \<and> r \<noteq> 0 \<and> exited p = None \<longrightarrow>
           team p = r \<and>
           (\<exists>pre. tr = pre @ Return r # take (match_done (pc p)) (match_events (id_p p0) r)))
     \<and> (\<forall>r. rets tr = [r] \<and> r \<noteq> 0 \<and> exited p = None \<and> pc p = L125 \<longrightarrow>
           (\<exists>pre. tr = pre @ Return r # match_events (id_p p0) r))
     \<and> (exited p0 = None \<and> exited p \<noteq> None \<longrightarrow>
           tr \<noteq> [] \<and> ((\<exists>x. last tr = SemFail x \<and> exited p = Some EXIT_FAILURE)
             \<or> (pc p = L125 \<and> (\<exists>e. last tr = Exit e \<and> exited p = Some e))))
     \<and> (\<forall>sh sm. player_step NTP False p sh sm = None \<longleftrightarrow>
           exited p \<noteq> None \<or> (\<exists>x. waits_on (pc p) = Some x \<and> sm x = 0))
     \<and> (\<forall>q sh sm. pc q = L252 \<and> exited q = None \<and> ret q \<noteq> 0 \<and>
           0 < sm mutex \<and> 0 < sm playersWaitReferee \<and> 0 < sm playersWaitEnd \<longrightarrow>
           solo NTP 13 ([], q, sh, sm) =
             (Return (ret q) # match_events (id_p q) (ret q) @ [Exit EXIT_SUCCESS],
              q\<lparr>pc := L125, exited := Some EXIT_SUCCESS, team := ret q\<rparr>,
              set_playerStat sh (id_p q) (if ret q = 1 then PLAYING_1 else PLAYING_2),
              sm(playersWaitReferee := sm playersWaitReferee - 1, playing := sm playing + 1,
                 playersWaitEnd := sm playersWaitEnd - 1)))
     \<and> (\<forall>q sh sm. pc q = L252 \<and> exited q = None \<and> ret q = 0 \<longrightarrow>
           solo NTP 2 ([], q, sh, sm) =
             ([Return 0, Exit EXIT_SUCCESS],
              q\<lparr>pc := L125, exited := Some EXIT_SUCCESS, team := 0\<rparr>, sh, sm))"
proof -
  from assms(2) have nr: "\<not> returned (pc p0)" by (auto simp: returned_def)
  note li = life_inv_pexec[OF assms(1) nr] and la = late_inv_pexec[OF assms]
    and mi = match_inv_pexec[OF assms(1) nr] and idp = pexec_id[OF assms(1)]
  have c1: "in_match (pc p) \<longrightarrow> (\<exists>r. r \<noteq> 0 \<and> rets tr = [r])"
    using li by (cases "pc p"; simp add: life_inv_def in_match_def Let_def)
  have c2: "rets tr = [0] \<longrightarrow> pc p = L125 \<and> filter match_event tr = []"
    using li by (cases "pc p"; simp add: life_inv_def Let_def)
  have c3: "\<forall>r. rets tr = [r] \<and> r \<noteq> 0 \<longrightarrow>
           in_match (pc p) \<or> (pc p = L125 \<and> SemDown playersWaitEnd \<in> set tr)"
    using li by (cases "pc p"; simp add: life_inv_def in_match_def Let_def)
  have c4: "\<forall>x r. claimed tr = [x] \<and> rets tr = [r] \<longrightarrow> r = x"
    using li la
    by (cases "pc p"; auto simp add: life_inv_def late_inv_def toolate_def Let_def)
  have c5: "claimed tr = [0] \<longrightarrow> \<not> in_match (pc p) \<and> filter match_event tr = []"
    using li la
    by (cases "pc p"; auto simp add: life_inv_def late_inv_def toolate_def in_match_def Let_def)
  have c6: "lates tr \<noteq> [] \<longrightarrow> \<not> in_match (pc p) \<and> filter match_event tr = []"
    using li la
    by (cases "pc p"; auto simp add: life_inv_def late_inv_def ontime_def in_match_def Let_def)
  have c7: "\<forall>fl q sh sm x q' sh' sm'.
           player_step NTP fl q sh sm = Some (ClaimTeam x, q', sh', sm') \<longrightarrow>
           x = teamId sh \<and> ret q' = teamId sh \<and> teamId sh' = teamId sh + 1"
    using step_ClaimTeam by blast
  have tm: "team p = r \<and> (in_match (pc p) \<or> (pc p = L125 \<and> team p \<noteq> 0))"
    if "rets tr = [r]" "r \<noteq> 0" for r
    using li that by (cases "pc p"; simp add: life_inv_def in_match_def Let_def)
  have c8: "\<forall>r. rets tr = [r] \<and> r \<noteq> 0 \<and> exited p = None \<longrightarrow>
           team p = r \<and>
           (\<exists>pre. tr = pre @ Return r # take (match_done (pc p)) (match_events (id_p p0) r))"
  proof (intro allI impI)
    fix r assume h: "rets tr = [r] \<and> r \<noteq> 0 \<and> exited p = None"
    with tm[of r] have t: "team p = r" "in_match (pc p) \<or> (pc p = L125 \<and> team p \<noteq> 0)"
      by blast+
    with mi h idp
    show "team p = r \<and>
           (\<exists>pre. tr = pre @ Return r # take (match_done (pc p)) (match_events (id_p p0) r))"
      by (auto simp add: match_inv_def)
  qed
  have c9: "\<forall>r. rets tr = [r] \<and> r \<noteq> 0 \<and> exited p = None \<and> pc p = L125 \<longrightarrow>
           (\<exists>pre. tr = pre @ Return r # match_events (id_p p0) r)"
  proof (intro allI impI)
    fix r assume h: "rets tr = [r] \<and> r \<noteq> 0 \<and> exited p = None \<and> pc p = L125"
    with c8 have "\<exists>pre. tr = pre @ Return r # take (match_done (pc p)) (match_events (id_p p0) r)"
      by blast
    with h show "\<exists>pre. tr = pre @ Return r # match_events (id_p p0) r"
      by (simp add: match_done_def match_events_def)
  qed
  have c10: "exited p0 = None \<and> exited p \<noteq> None \<longrightarrow>
           tr \<noteq> [] \<and> ((\<exists>x. last tr = SemFail x \<and> exited p = Some EXIT_FAILURE)
             \<or> (pc p = L125 \<and> (\<exists>e. last tr = Exit e \<and> exited p = Some e)))"
  proof (intro impI)
    assume "exited p0 = None \<and> exited p \<noteq> None"
    then have h: "exited p0 = None" "exited p \<noteq> None" by simp_all
    from exit_pexec[OF assms(1) h]
    show "tr \<noteq> [] \<and> ((\<exists>x. last tr = SemFail x \<and> exited p = Some EXIT_FAILURE)
             \<or> (pc p = L125 \<and> (\<exists>e. last tr = Exit e \<and> exited p = Some e)))" .
  qed
  have c11: "\<forall>sh sm. player_step NTP False p sh sm = None \<longleftrightarrow>
           exited p \<noteq> None \<or> (\<exists>x. waits_on (pc p) = Some x \<and> sm x = 0)"
    by (intro allI) (rule step_blocked)
  have c12: "\<forall>q sh sm. pc q = L252 \<and> exited q = None \<and> ret q \<noteq> 0 \<and>
           0 < sm mutex \<and> 0 < sm playersWaitReferee \<and> 0 < sm playersWaitEnd \<longrightarrow>
           solo NTP 13 ([], q, sh, sm) =
             (Return (ret q) # match_events (id_p q) (ret q) @ [Exit EXIT_SUCCESS],
              q\<lparr>pc := L125, exited := Some EXIT_SUCCESS, team := ret q\<rparr>,
              set_playerStat sh (id_p q) (if ret q = 1 then PLAYING_1 else PLAYING_2),
              sm(playersWaitReferee := sm playersWaitReferee - 1, playing := sm playing + 1,
                 playersWaitEnd := sm playersWaitEnd - 1))"
  proof (intro allI impI)
    fix q :: player and sh :: FULL_STAT and sm :: sems
    assume "pc q = L252 \<and> exited q = None \<and> ret q \<noteq> 0 \<and>
           0 < sm mutex \<and> 0 < sm playersWaitReferee \<and> 0 < sm playersWaitEnd"
    then have h: "pc q = L252" "exited q = None" "ret q \<noteq> 0"
      "0 < sm mutex" "0 < sm playersWaitReferee" "0 < sm playersWaitEnd" by simp_all
    from match_run[of q sm NTP sh, OF h]
    show "solo NTP 13 ([], q, sh, sm) =
             (Return (ret q) # match_events (id_p q) (ret q) @ [Exit EXIT_SUCCESS],
              q\<lparr>pc := L125, exited := Some EXIT_SUCCESS, team := ret q\<rparr>,
              set_playerStat sh (id_p q) (if ret q = 1 then PLAYING_1 else PLAYING_2),
              sm(playersWaitReferee := sm playersWaitReferee - 1, playing := sm playing + 1,
                 playersWaitEnd := sm playersWaitEnd - 1))" .
  qed
  have c13: "\<forall>q sh sm. pc q = L252 \<and> exited q = None \<and> ret q = 0 \<longrightarrow>
           solo NTP 2 ([], q, sh, sm) =
             ([Return 0, Exit EXIT_SUCCESS],
              q\<lparr>pc := L125, exited := Some EXIT_SUCCESS, team := 0\<rparr>, sh, sm)"
  proof (intro allI impI)
    fix q :: player and sh :: FULL_STAT and sm :: sems
    assume "pc q = L252 \<and> exited q = None \<and> ret q = 0"
    then have h: "pc q = L252" "exited q = None" "ret q = 0" by simp_all
    from skip_run[of q NTP sh sm, OF h]
    show "solo NTP 2 ([], q, sh, sm) =
             ([Return 0, Exit EXIT_SUCCESS],
              q\<lparr>pc := L125, exited := Some EXIT_SUCCESS, team := 0\<rparr>, sh, sm)" .
  qed
  from c1 c2 c3 c4 c5 c6 c7 c8 c9 c10 c11 c12 c13 show ?thesis by (intro conjI)
qed

theorem zero_team_skips_match_witness:
  "claimed (fst (solo 4 20 ([], at_call 3, shm_of 3 3 1 0, sems_reg))) = [0]
   \<and> rets (fst (solo 4 20 ([], at_call 3, shm_of 3 3 1 0, sems_reg))) = [0]
   \<and> filter match_event (fst (solo 4 20 ([], at_call 3, shm_of 3 3 1 0, sems_reg))) = []
   \<and> \<not> in_match (pc (fst (snd (solo 4 20 ([], at_call 3, shm_of 3 3 1 0, sems_reg)))))
   \<and> pc (fst (snd (solo 4 30 ([], at_call 3, shm_of 3 3 1 1, sems_reg)))) = L279
   \<and> (\<exists>pre. fst (solo 4 30 ([], at_call 3, shm_of 3 3 1 1, sems_reg))
         = pre @ [Return 1, SemDown mutex, SetStat 3 WAITING_START_1, SaveState, SemUp mutex])"
proof -
  let ?r = "solo 4 20 ([], at_call 3, shm_of 3 3 1 0, sems_reg)"
  let ?q = "solo 4 30 ([], at_call 3, shm_of 3 3 1 1, sems_reg)"
  have ex: "pexec 4 (at_call 3) (fst ?r) (fst (snd ?r))" by (rule solo_pexec_fst)
  have ex2: "pexec 4 (at_call 3) (fst ?q) (fst (snd ?q))" by (rule solo_pexec_fst)
  have a: "pc (at_call 3) = L142 \<or> pc (at_call 3) = L177" "id_p (at_call 3) = 3"
    by (simp_all add: eval_defs)
  have b: "claimed (fst ?r) = [0]" "rets (fst ?r) = [0]"
    by (simp_all add: eval_defs eval_nat_numeral claimed_def rets_def)
  have c: "rets (fst ?q) = [1] \<and> (1::int) \<noteq> 0 \<and> exited (fst (snd ?q)) = None"
    "pc (fst (snd ?q)) = L279"
    by (simp_all add: eval_defs eval_nat_numeral rets_def)
  note z = zero_team_skips_match[OF ex a(1)] and y = zero_team_skips_match[OF ex2 a(1)]
  from y[THEN conjunct2, THEN conjunct2, THEN conjunct2, THEN conjunct2, THEN conjunct2,
      THEN conjunct2, THEN conjunct2, THEN conjunct1, rule_format, OF c(1)] c(2) a(2)
  have two: "\<exists>pre. fst ?q
         = pre @ [Return 1, SemDown mutex, SetStat 3 WAITING_START_1, SaveState, SemUp mutex]"
    by (simp add: match_done_def match_events_def)
  from z b c(2) two show ?thesis by (simp add: in_match_def)
qed

lemma step_Dec:
  assumes "player_step NTP fl p sh sm = Some (ev, p', sh', sm')"
  shows "(ev = DecPlayersFree \<and> pc p = L187 \<and> playersFree sh' = playersFree sh - 3
            \<and> goaliesFree sh' = goaliesFree sh)
       \<or> (ev = DecGoaliesFree \<and> pc p = L188 \<and> playersFree sh' = playersFree sh
            \<and> goaliesFree sh' = goaliesFree sh - 1)
       \<or> (ev = IncPlayersFree \<and> pc p = L217 \<and> playersFree sh' = playersFree sh + 1
            \<and> goaliesFree sh' = goaliesFree sh)
       \<or> (ev \<noteq> DecPlayersFree \<and> ev \<noteq> DecGoaliesFree \<and> ev \<noteq> IncPlayersFree
            \<and> playersFree sh' = playersFree sh \<and> goaliesFree sh' = goaliesFree sh)"
  using assms
  by (cases "pc p"; clarsimp simp: step_defs split: if_splits)

lemma reach_initial_schedule:
  assumes "schedule NTP cs ([], s0) = Some (tr, s)" and "initial s0"
  shows "reach NTP s"
  unfolding reach_def using schedule_grun[OF assms(1) grun_init] assms(2) by blast

lemma initial_system0: "initial system0"
  by (simp add: initial_def system0_def player0_def shm0_def sems0_def)

lemma reach_only_one_in_cs:
  assumes "reach NTP s" and "in_cs (pc (players s i))" and "in_cs (pc (players s j))"
  shows "i = j"
proof -
  from reach_ginv[OF assms(1)] have "mut_inv s" by (simp add: ginv_def)
  moreover from assms(2,3) have "i \<in> at (Collect in_cs) s" "j \<in> at (Collect in_cs) s"
    by (simp_all add: mem_at)
  ultimately show ?thesis by (simp add: mut_inv_def)
qed

lemma reach_free:
  assumes "reach NTP s"
  shows "0 \<le> playersFree (shm s) \<and> 0 \<le> goaliesFree (shm s)
     \<and> (pc (players s i) = L187 \<longrightarrow> 3 \<le> playersFree (shm s) \<and> 1 \<le> goaliesFree (shm s))
     \<and> (pc (players s i) = L188 \<longrightarrow> 1 \<le> goaliesFree (shm s))"
proof -
  from reach_ginv[OF assms(1)] have f: "free_inv s" by (simp add: ginv_def)
  have "at {L187} s \<noteq> {}" if "pc (players s i) = L187"
    using that by (auto simp: at_def)
  moreover have "at {L188} s \<noteq> {}" if "pc (players s i) = L188"
    using that by (auto simp: at_def)
  ultimately show ?thesis using f by (auto simp: free_inv_def)
qed

lemma run_test_facts:
  "case schedule 4 sched_test ([], system0) of None \<Rightarrow> False
   | Some (tr, s) \<Rightarrow> pc (players s 3) = L187 \<and> playersFree (shm s) = 3 \<and> goaliesFree (shm s) = 1"
  by (simp add: sched_test_def run_defs step_defs eval_nat_numeral)

lemma leader_branch_test:
  assumes "pexec NTP p0 tr p" and "pc p0 = L177" and "exited p0 = None"
    and "exited p = None" and "\<not> returned (pc p)"
    and "TestFree f g \<in> set tr" and "3 \<le> f" and "1 \<le> g"
  shows "(handshaking (pc p) \<or> pc p = L187 \<or> pc p = L188 \<or> pc p = L189 \<or> pc p = L190
          \<or> ((pc p = L223 \<or> pc p = L231 \<or> pc p = L252) \<and> player_type p = 1))
       \<and> (SemUp mutex \<in> set tr \<longrightarrow>
            (\<exists>v r rest. v \<le> 8 \<and> tr = lead_tr NTP (id_p p0) v f g r @ SemUp mutex # rest))"
proof -
  from pct_inv_pexec[OF assms(1-3)] assms(4,5)
  obtain v0 f0 g0 where *: "tr = pct_shape NTP v0 f0 g0 p" "pct_cond NTP v0 f0 g0 p" "id_p p = id_p p0"
    by (auto simp: pct_inv_def)
  with assms(5-8) show ?thesis
    by (cases "pc p"; clarsimp simp: shape_defs handshaking_def returned_def Let_def split: if_splits)
qed

lemma leader_reserve_run:
  assumes "pc p = L177" and "exited p = None" and "0 < sm mutex" and "playersArrived sh < 8"
    and "3 \<le> playersFree sh" and "1 \<le> goaliesFree sh"
  shows "solo NTP 7 ([], p, sh, sm) =
     ([SemDown mutex, IncArrived (playersArrived sh + 1),
       TestFree (playersFree sh) (goaliesFree sh), DecPlayersFree, DecGoaliesFree,
       SetStat (id_p p) FORMING_TEAM, SaveState],
      p\<lparr>pc := L193, ret := 0, player_type := 0, count_p := 0\<rparr>,
      set_playerStat (sh\<lparr>playersArrived := playersArrived sh + 1,
          playersFree := playersFree sh - 3, goaliesFree := goaliesFree sh - 1\<rparr>)
        (id_p p) FORMING_TEAM,
      sm(mutex := sm mutex - 1))"
  using assms by (simp add: eval_nat_numeral step_defs)

text \<open>
  C3.  For every arrival in playerConstituteTeam that finds at least 3 free players and
  at least 1 free goalie at the test of line 186: the arrival is on the leader's path,
  and when it has released the mutex its events up to the release are the leader's:
  \<open>playersFree\<close> decremented, \<open>goaliesFree\<close> decremented, the status set to
  FORMING_TEAM, the state saved, the handshakes, the claim.  The test reads the two
  counters, line 187 takes exactly 3 from \<open>playersFree\<close>, line 188 exactly 1 from
  \<open>goaliesFree\<close>, line 189 writes FORMING_TEAM to the player's entry of \<open>playerStat\<close>:
  run from a state in which the mutex is free, fewer than 8 players have arrived and 3
  players and a goalie are free, the call is after seven steps at the first handshake
  (line 193) with the counters lowered by 3 and by 1, the status written, and the mutex
  still taken.  In every reachable state at most one player is inside a critical region,
  and a player about to take the three players (line 187) still finds what it tested.
\<close>

theorem leader_reserves_under_mutex:
  "(\<forall>p0 tr p f g. pexec NTP p0 tr p \<and> pc p0 = L177 \<and> exited p0 = None \<and>
        exited p = None \<and> \<not> returned (pc p) \<and>
        TestFree f g \<in> set tr \<and> 3 \<le> f \<and> 1 \<le> g \<longrightarrow>
      (handshaking (pc p) \<or> pc p = L187 \<or> pc p = L188 \<or> pc p = L189 \<or> pc p = L190
         \<or> ((pc p = L223 \<or> pc p = L231 \<or> pc p = L252) \<and> player_type p = 1)) \<and>
      (SemUp mutex \<in> set tr \<longrightarrow>
         (\<exists>v r rest. v \<le> 8 \<and>
            tr = [SemDown mutex, IncArrived v, TestFree f g, DecPlayersFree,
                  DecGoaliesFree, SetStat (id_p p0) FORMING_TEAM, SaveState]
                 @ rounds (nat (NTP - 1))
                 @ [SemUp goaliesWaitTeam, SemDown playerRegistered, ClaimTeam r]
                 @ SemUp mutex # rest)))
   \<and> (\<forall>fl p sh sm f g p' sh' sm'.
        player_step NTP fl p sh sm = Some (TestFree f g, p', sh', sm') \<longrightarrow>
        f = playersFree sh \<and> g = goaliesFree sh \<and> sh' = sh \<and> sm' = sm
        \<and> pc p' = (if 3 \<le> f \<and> g \<noteq> 0 then L187 else L217))
   \<and> (\<forall>fl p sh sm p' sh' sm'.
        (player_step NTP fl p sh sm = Some (DecPlayersFree, p', sh', sm') \<longrightarrow>
           pc p = L187 \<and> pc p' = L188 \<and> sm' = sm
           \<and> sh' = sh\<lparr>playersFree := playersFree sh - 3\<rparr>) \<and>
        (player_step NTP fl p sh sm = Some (DecGoaliesFree, p', sh', sm') \<longrightarrow>
           pc p = L188 \<and> pc p' = L189 \<and> sm' = sm
           \<and> sh' = sh\<lparr>goaliesFree := goaliesFree sh - 1\<rparr>))
   \<and> (\<forall>fl p sh sm i x p' sh' sm'.
        player_step NTP fl p sh sm = Some (SetStat i x, p', sh', sm') \<longrightarrow>
        i = id_p p \<and> sh' = set_playerStat sh i x \<and> playerStat (st sh') i = x \<and> sm' = sm)
   \<and> (\<forall>p sh sm. pc p = L177 \<and> exited p = None \<and> 0 < sm mutex \<and> playersArrived sh < 8 \<and>
          3 \<le> playersFree sh \<and> 1 \<le> goaliesFree sh \<longrightarrow>
        solo NTP 7 ([], p, sh, sm) =
          ([SemDown mutex, IncArrived (playersArrived sh + 1),
            TestFree (playersFree sh) (goaliesFree sh), DecPlayersFree, DecGoaliesFree,
            SetStat (id_p p) FORMING_TEAM, SaveState],
           p\<lparr>pc := L193, ret := 0, player_type := 0, count_p := 0\<rparr>,
           set_playerStat (sh\<lparr>playersArrived := playersArrived sh + 1,
               playersFree := playersFree sh - 3, goaliesFree := goaliesFree sh - 1\<rparr>)
             (id_p p) FORMING_TEAM,
           sm(mutex := sm mutex - 1)))
   \<and> (\<forall>s. reach NTP s \<longrightarrow>
        (\<forall>i j. in_cs (pc (players s i)) \<and> in_cs (pc (players s j)) \<longrightarrow> i = j) \<and>
        (\<forall>i. pc (players s i) = L187 \<longrightarrow>
           3 \<le> playersFree (shm s) \<and> 1 \<le> goaliesFree (shm s)))"
proof -
  have A: "(handshaking (pc p) \<or> pc p = L187 \<or> pc p = L188 \<or> pc p = L189 \<or> pc p = L190
         \<or> ((pc p = L223 \<or> pc p = L231 \<or> pc p = L252) \<and> player_type p = 1)) \<and>
      (SemUp mutex \<in> set tr \<longrightarrow>
         (\<exists>v r rest. v \<le> 8 \<and>
            tr = [SemDown mutex, IncArrived v, TestFree f g, DecPlayersFree,
                  DecGoaliesFree, SetStat (id_p p0) FORMING_TEAM, SaveState]
                 @ rounds (nat (NTP - 1))
                 @ [SemUp goaliesWaitTeam, SemDown playerRegistered, ClaimTeam r]
                 @ SemUp mutex # rest))"
    if "pexec NTP p0 tr p \<and> pc p0 = L177 \<and> exited p0 = None \<and>
        exited p = None \<and> \<not> returned (pc p) \<and>
        TestFree f g \<in> set tr \<and> 3 \<le> f \<and> 1 \<le> g"
    for p0 tr p f g
  proof -
    from that have h: "pexec NTP p0 tr p" "pc p0 = L177" "exited p0 = None"
        "exited p = None" "\<not> returned (pc p)"
        "TestFree f g \<in> set tr" "3 \<le> f" "1 \<le> g"
      by simp_all
    from leader_branch_test[OF h] show ?thesis
      by (simp add: lead_tr_def lead_pre_def entry_def)
  qed
  have T: "f = playersFree sh \<and> g = goaliesFree sh \<and> sh' = sh \<and> sm' = sm
        \<and> pc p' = (if 3 \<le> f \<and> g \<noteq> 0 then L187 else L217)"
    if "player_step NTP fl p sh sm = Some (TestFree f g, p', sh', sm')"
    for fl p sh sm f g p' sh' sm'
    using step_TestFree[OF that] .
  have B: "(player_step NTP fl p sh sm = Some (DecPlayersFree, p', sh', sm') \<longrightarrow>
           pc p = L187 \<and> pc p' = L188 \<and> sm' = sm
           \<and> sh' = sh\<lparr>playersFree := playersFree sh - 3\<rparr>) \<and>
        (player_step NTP fl p sh sm = Some (DecGoaliesFree, p', sh', sm') \<longrightarrow>
           pc p = L188 \<and> pc p' = L189 \<and> sm' = sm
           \<and> sh' = sh\<lparr>goaliesFree := goaliesFree sh - 1\<rparr>)"
    for fl p sh sm p' sh' sm'
    using step_Reserve[of NTP fl p sh sm _ p' sh' sm'] by blast
  have D: "i = id_p p \<and> sh' = set_playerStat sh i x \<and> playerStat (st sh') i = x \<and> sm' = sm"
    if "player_step NTP fl p sh sm = Some (SetStat i x, p', sh', sm')"
    for fl p sh sm i x p' sh' sm'
    using step_SetStat[OF that] .
  have E: "solo NTP 7 ([], p, sh, sm) =
          ([SemDown mutex, IncArrived (playersArrived sh + 1),
            TestFree (playersFree sh) (goaliesFree sh), DecPlayersFree, DecGoaliesFree,
            SetStat (id_p p) FORMING_TEAM, SaveState],
           p\<lparr>pc := L193, ret := 0, player_type := 0, count_p := 0\<rparr>,
           set_playerStat (sh\<lparr>playersArrived := playersArrived sh + 1,
               playersFree := playersFree sh - 3, goaliesFree := goaliesFree sh - 1\<rparr>)
             (id_p p) FORMING_TEAM,
           sm(mutex := sm mutex - 1))"
    if "pc p = L177 \<and> exited p = None \<and> 0 < sm mutex \<and> playersArrived sh < 8 \<and>
          3 \<le> playersFree sh \<and> 1 \<le> goaliesFree sh" for p sh sm
  proof -
    from that have h: "pc p = L177" "exited p = None" "0 < sm mutex" "playersArrived sh < 8"
      "3 \<le> playersFree sh" "1 \<le> goaliesFree sh" by simp_all
    from leader_reserve_run[of p sm sh NTP, OF h] show ?thesis .
  qed
  have C: "(\<forall>i j. in_cs (pc (players s i)) \<and> in_cs (pc (players s j)) \<longrightarrow> i = j) \<and>
        (\<forall>i. pc (players s i) = L187 \<longrightarrow>
           3 \<le> playersFree (shm s) \<and> 1 \<le> goaliesFree (shm s))"
    if "reach NTP s" for s
    using reach_only_one_in_cs[OF that] reach_free[OF that] by blast
  have a: "\<forall>p0 tr p f g. pexec NTP p0 tr p \<and> pc p0 = L177 \<and> exited p0 = None \<and>
        exited p = None \<and> \<not> returned (pc p) \<and>
        TestFree f g \<in> set tr \<and> 3 \<le> f \<and> 1 \<le> g \<longrightarrow>
      (handshaking (pc p) \<or> pc p = L187 \<or> pc p = L188 \<or> pc p = L189 \<or> pc p = L190
         \<or> ((pc p = L223 \<or> pc p = L231 \<or> pc p = L252) \<and> player_type p = 1)) \<and>
      (SemUp mutex \<in> set tr \<longrightarrow>
         (\<exists>v r rest. v \<le> 8 \<and>
            tr = [SemDown mutex, IncArrived v, TestFree f g, DecPlayersFree,
                  DecGoaliesFree, SetStat (id_p p0) FORMING_TEAM, SaveState]
                 @ rounds (nat (NTP - 1))
                 @ [SemUp goaliesWaitTeam, SemDown playerRegistered, ClaimTeam r]
                 @ SemUp mutex # rest))"
    using A by blast
  from T have t: "\<forall>fl p sh sm f g p' sh' sm'.
        player_step NTP fl p sh sm = Some (TestFree f g, p', sh', sm') \<longrightarrow>
        f = playersFree sh \<and> g = goaliesFree sh \<and> sh' = sh \<and> sm' = sm
        \<and> pc p' = (if 3 \<le> f \<and> g \<noteq> 0 then L187 else L217)" by blast
  from B have b: "\<forall>fl p sh sm p' sh' sm'.
        (player_step NTP fl p sh sm = Some (DecPlayersFree, p', sh', sm') \<longrightarrow>
           pc p = L187 \<and> pc p' = L188 \<and> sm' = sm
           \<and> sh' = sh\<lparr>playersFree := playersFree sh - 3\<rparr>) \<and>
        (player_step NTP fl p sh sm = Some (DecGoaliesFree, p', sh', sm') \<longrightarrow>
           pc p = L188 \<and> pc p' = L189 \<and> sm' = sm
           \<and> sh' = sh\<lparr>goaliesFree := goaliesFree sh - 1\<rparr>)" by blast
  from D have d: "\<forall>fl p sh sm i x p' sh' sm'.
        player_step NTP fl p sh sm = Some (SetStat i x, p', sh', sm') \<longrightarrow>
        i = id_p p \<and> sh' = set_playerStat sh i x \<and> playerStat (st sh') i = x \<and> sm' = sm"
    by blast
  from E have e: "\<forall>p sh sm. pc p = L177 \<and> exited p = None \<and> 0 < sm mutex \<and> playersArrived sh < 8 \<and>
          3 \<le> playersFree sh \<and> 1 \<le> goaliesFree sh \<longrightarrow>
        solo NTP 7 ([], p, sh, sm) =
          ([SemDown mutex, IncArrived (playersArrived sh + 1),
            TestFree (playersFree sh) (goaliesFree sh), DecPlayersFree, DecGoaliesFree,
            SetStat (id_p p) FORMING_TEAM, SaveState],
           p\<lparr>pc := L193, ret := 0, player_type := 0, count_p := 0\<rparr>,
           set_playerStat (sh\<lparr>playersArrived := playersArrived sh + 1,
               playersFree := playersFree sh - 3, goaliesFree := goaliesFree sh - 1\<rparr>)
             (id_p p) FORMING_TEAM,
           sm(mutex := sm mutex - 1))" by blast
  from C have c: "\<forall>s. reach NTP s \<longrightarrow>
        (\<forall>i j. in_cs (pc (players s i)) \<and> in_cs (pc (players s j)) \<longrightarrow> i = j) \<and>
        (\<forall>i. pc (players s i) = L187 \<longrightarrow>
           3 \<le> playersFree (shm s) \<and> 1 \<le> goaliesFree (shm s))" by blast
  from a t b d e c show ?thesis by (intro conjI)
qed

theorem leader_reserves_under_mutex_witness:
  "(\<exists>v r rest. fst (solo 4 18 ([], at_call 3, shm_of 3 3 1 1, sems_reg))
      = [SemDown mutex, IncArrived v, TestFree 3 1, DecPlayersFree,
         DecGoaliesFree, SetStat 3 FORMING_TEAM, SaveState]
        @ rounds 3
        @ [SemUp goaliesWaitTeam, SemDown playerRegistered, ClaimTeam r]
        @ SemUp mutex # rest)
   \<and> playersFree (fst (snd (snd (solo 4 7 ([], at_call 3, shm_of 3 3 1 1, sems_reg))))) = 0
   \<and> goaliesFree (fst (snd (snd (solo 4 7 ([], at_call 3, shm_of 3 3 1 1, sems_reg))))) = 0
   \<and> playerStat (st (fst (snd (snd (solo 4 7 ([], at_call 3, shm_of 3 3 1 1, sems_reg)))))) 3
       = FORMING_TEAM
   \<and> snd (snd (snd (solo 4 7 ([], at_call 3, shm_of 3 3 1 1, sems_reg)))) mutex = 0
   \<and> (\<exists>tr s. schedule 4 sched_test ([], system0) = Some (tr, s) \<and> pc (players s 3) = L187
        \<and> 3 \<le> playersFree (shm s) \<and> 1 \<le> goaliesFree (shm s))"
proof -
  let ?r = "solo 4 18 ([], at_call 3, shm_of 3 3 1 1, sems_reg)"
  have ex: "pexec 4 (at_call 3) (fst ?r) (fst (snd ?r))" by (rule solo_pexec_fst)
  have a: "pc (at_call 3) = L177" "exited (at_call 3) = None" "id_p (at_call 3) = 3"
    by (simp_all add: eval_defs)
  have b: "exited (fst (snd ?r)) = None" "\<not> returned (pc (fst (snd ?r)))"
    "TestFree 3 1 \<in> set (fst ?r)" "SemUp mutex \<in> set (fst ?r)"
    by (simp_all add: eval_defs eval_nat_numeral returned_def)
  have prem: "pexec 4 (at_call 3) (fst ?r) (fst (snd ?r)) \<and> pc (at_call 3) = L177 \<and>
      exited (at_call 3) = None \<and> exited (fst (snd ?r)) = None \<and>
      \<not> returned (pc (fst (snd ?r))) \<and>
      TestFree 3 1 \<in> set (fst ?r) \<and> (3::int) \<le> 3 \<and> (1::int) \<le> 1"
    using ex a(1,2) b(1-3) by simp
  note lr = leader_reserves_under_mutex[of 4]
  from lr[THEN conjunct1, rule_format, OF prem] b(4) a(3)
  have one: "\<exists>v r rest. fst ?r
      = [SemDown mutex, IncArrived v, TestFree 3 1, DecPlayersFree,
         DecGoaliesFree, SetStat 3 FORMING_TEAM, SaveState]
        @ rounds 3
        @ [SemUp goaliesWaitTeam, SemDown playerRegistered, ClaimTeam r]
        @ SemUp mutex # rest"
    by (simp add: eval_nat_numeral) blast
  have prem2: "pc (at_call 3) = L177 \<and> exited (at_call 3) = None \<and> 0 < sems_reg mutex \<and>
      playersArrived (shm_of 3 3 1 1) < 8 \<and> 3 \<le> playersFree (shm_of 3 3 1 1) \<and>
      1 \<le> goaliesFree (shm_of 3 3 1 1)"
    by (simp add: eval_defs)
  from lr[THEN conjunct2, THEN conjunct2, THEN conjunct2, THEN conjunct2, THEN conjunct1,
      THEN spec[of _ "at_call 3"], THEN spec[of _ "shm_of 3 3 1 1"], THEN spec[of _ sems_reg],
      THEN mp, OF prem2]
  have two: "playersFree (fst (snd (snd (solo 4 7 ([], at_call 3, shm_of 3 3 1 1, sems_reg))))) = 0
   \<and> goaliesFree (fst (snd (snd (solo 4 7 ([], at_call 3, shm_of 3 3 1 1, sems_reg))))) = 0
   \<and> playerStat (st (fst (snd (snd (solo 4 7 ([], at_call 3, shm_of 3 3 1 1, sems_reg)))))) 3
       = FORMING_TEAM
   \<and> snd (snd (snd (solo 4 7 ([], at_call 3, shm_of 3 3 1 1, sems_reg)))) mutex = 0"
    by (simp add: shm_of_def set_playerStat_def at_call_def player0_def sems_reg_def)
  from run_test_facts obtain tr s where
    run: "schedule 4 sched_test ([], system0) = Some (tr, s)" and pc3: "pc (players s 3) = L187"
    by (auto split: option.splits)
  from reach_initial_schedule[OF run initial_system0] have re: "reach 4 s" .
  from lr[THEN conjunct2, THEN conjunct2, THEN conjunct2, THEN conjunct2, THEN conjunct2,
      rule_format, OF re, THEN conjunct2, rule_format, OF pc3]
  have "3 \<le> playersFree (shm s) \<and> 1 \<le> goaliesFree (shm s)" .
  with run pc3 one two show ?thesis by blast
qed

text \<open>
  C6.  In every reachable state \<open>playersFree\<close> and \<open>goaliesFree\<close> are not negative.  A
  step of a player changes them only by taking 3 from \<open>playersFree\<close> at line 187, by
  taking 1 from \<open>goaliesFree\<close> at line 188, or by adding 1 to \<open>playersFree\<close> at line 217;
  at lines 187 and 188 the player holds the mutex, and what the test of line 186 has
  found is still there: \<open>playersFree\<close> is at least 3 at line 187 and \<open>goaliesFree\<close> at
  least 1 at lines 187 and 188.
\<close>

theorem free_counters_never_negative:
  "(\<forall>s. reach NTP s \<longrightarrow> 0 \<le> playersFree (shm s) \<and> 0 \<le> goaliesFree (shm s))
   \<and> (\<forall>fl p sh sm ev p' sh' sm'. player_step NTP fl p sh sm = Some (ev, p', sh', sm') \<longrightarrow>
         (ev = DecPlayersFree \<and> pc p = L187 \<and> playersFree sh' = playersFree sh - 3
            \<and> goaliesFree sh' = goaliesFree sh)
       \<or> (ev = DecGoaliesFree \<and> pc p = L188 \<and> playersFree sh' = playersFree sh
            \<and> goaliesFree sh' = goaliesFree sh - 1)
       \<or> (ev = IncPlayersFree \<and> pc p = L217 \<and> playersFree sh' = playersFree sh + 1
            \<and> goaliesFree sh' = goaliesFree sh)
       \<or> (ev \<noteq> DecPlayersFree \<and> ev \<noteq> DecGoaliesFree \<and> ev \<noteq> IncPlayersFree
            \<and> playersFree sh' = playersFree sh \<and> goaliesFree sh' = goaliesFree sh))
   \<and> (\<forall>s i. reach NTP s \<and> pc (players s i) = L187 \<longrightarrow>
         3 \<le> playersFree (shm s) \<and> 1 \<le> goaliesFree (shm s))
   \<and> (\<forall>s i. reach NTP s \<and> pc (players s i) = L188 \<longrightarrow> 1 \<le> goaliesFree (shm s))
   \<and> (\<forall>p0 tr p. pexec NTP p0 tr p \<and> pc p0 = L142 \<and> (pc p = L187 \<or> pc p = L188) \<longrightarrow>
         holds_mutex tr)"
proof -
  have A: "0 \<le> playersFree (shm s) \<and> 0 \<le> goaliesFree (shm s)" if "reach NTP s" for s
    using reach_free[OF that] by simp
  have C: "3 \<le> playersFree (shm s) \<and> 1 \<le> goaliesFree (shm s)"
    if "reach NTP s \<and> pc (players s i) = L187" for s i
    using reach_free[of NTP s i] that by simp
  have D: "1 \<le> goaliesFree (shm s)" if "reach NTP s \<and> pc (players s i) = L188" for s i
    using reach_free[of NTP s i] that by simp
  have E: "holds_mutex tr" if "pexec NTP p0 tr p \<and> pc p0 = L142 \<and> (pc p = L187 \<or> pc p = L188)"
    for p0 tr p
    using holds_mutex_iff[of NTP p0 tr p] that by (auto simp: in_cs_def)
  from A step_Dec C D E show ?thesis by blast
qed

theorem free_counters_never_negative_witness:
  "\<exists>tr s. schedule 4 sched_test ([], system0) = Some (tr, s) \<and> pc (players s 3) = L187
     \<and> 0 \<le> playersFree (shm s) \<and> 0 \<le> goaliesFree (shm s)"
proof -
  from run_test_facts obtain tr s where
    run: "schedule 4 sched_test ([], system0) = Some (tr, s)" and pc3: "pc (players s 3) = L187"
    by (auto split: option.splits)
  from reach_initial_schedule[OF run initial_system0] have re: "reach 4 s" .
  from free_counters_never_negative[of 4, THEN conjunct1, rule_format, OF re] run pc3
  show ?thesis by blast
qed






































lemma strtol_minus_one: "strtol ''-1'' = (- 1, [])"
  by (simp add: strtol_def isspace_def is_hex_prefix_def digit_of_def)

text \<open>
  C8.  An argument vector of four entries whose id is a negative number (that fits an
  \<^verbatim>\<open>int\<close>) passes the validation of lines 78 and 79: \<^verbatim>\<open>n\<close> is an \<^verbatim>\<open>int\<close>, so
  \<^verbatim>\<open>n >= NUMPLAYERS\<close> is false for it, and when the connection to the semaphores and to the
  shared memory succeeds \<^verbatim>\<open>main\<close> goes on to call \<^verbatim>\<open>arrive (n)\<close> with that negative id
  instead of exiting with failure.
\<close>

theorem negative_id_passes_validation:
  assumes "length argv = 4" and "strtol (argv ! 1) = (v, [])"
    and "- (2 ^ 31) \<le> v" and "v < 0" and "0 \<le> NUMPLAYERS"
    and "ftok_ok env" and "semConnect_ok env" and "shmemConnect_ok env" and "shmemAttach_ok env"
  shows "main_startup NUMPLAYERS argv env = Inr (player0 v)"
proof -
  from assms(3,4) have "sint (word_of_int v :: 32 word) = v"
    by (simp add: sint_sbintrunc' signed_take_bit_int_eq_self)
  with assms show ?thesis by (simp add: main_startup_def player0_def)
qed

theorem negative_id_passes_validation_witness:
  "main_startup 10 [''semSharedMemPlayer'', ''-1'', ''log'', ''err''] os_ok = Inr (player0 (- 1))
   \<and> fst (solo 4 2 ([], player0 (- 1), shm0, sems0)) = [SemDown mutex, SetStat (- 1) ARRIVING]"
proof -
  have "main_startup 10 [''semSharedMemPlayer'', ''-1'', ''log'', ''err''] os_ok = Inr (player0 (- 1))"
    by (rule negative_id_passes_validation) (simp_all add: strtol_minus_one os_ok_def)
  moreover have "fst (solo 4 2 ([], player0 (- 1), shm0, sems0)) = [SemDown mutex, SetStat (- 1) ARRIVING]"
    by (simp add: eval_defs shm0_def eval_nat_numeral)
  ultimately show ?thesis by simp
qed

end
